theory Spec2Isabelle
  imports Complex_Main "HOL-Library.Monad_Syntax"
begin

section \<open>The N queens genetic algorithm of \<^verbatim>\<open>main.go\<close>\<close>

text \<open>
  A shallow embedding of \<^verbatim>\<open>src/main.go\<close>. Go's \<^verbatim>\<open>uint\<close> is taken to be 64 bits wide:
  a value is a \<open>nat\<close> and every arithmetic operation of \<^verbatim>\<open>place\<close> wraps modulo \<open>2 ^ 64\<close>
  (\<open>uadd\<close>, \<open>usub\<close>, \<open>umul\<close>). Loop counters that are only incremented below their bound
  are plain successors. A run-time panic of Go (an index out of range, \<^verbatim>\<open>rand.Intn\<close> of a
  non-positive bound) is the value \<open>None\<close>; the error value that \<^verbatim>\<open>place\<close> returns is a value
  of the datatype \<open>error\<close>. The source's constants \<^verbatim>\<open>BOARDSIZE\<close>, \<^verbatim>\<open>QUEENS\<close>, \<^verbatim>\<open>POPSIZE\<close> and
  \<^verbatim>\<open>MAXGENERATIONS\<close> are parameters of the functions that read them (\<open>bs\<close>, \<open>nq\<close>,
  \<open>popsize\<close>, \<open>maxgen\<close>); their values in the source are recorded below. A \<^verbatim>\<open>float64\<close> is
  modelled by a real number: the quotient of \<^verbatim>\<open>fitness\<close>, the running sum of the scores and
  the average of a generation are the exact ones, without the rounding of \<^verbatim>\<open>float64\<close>.
  Rounding can move the average that \<^verbatim>\<open>main\<close> computes across a threshold of the operator
  pass; the statements on the operator pass that are not evaluations on an explicit
  population whose sums are exact in \<^verbatim>\<open>float64\<close> are made for every value of the average.
\<close>

subsection \<open>Data\<close>

datatype PosType = FREE | QUEEN | COVERED

definition QUEENS :: nat where
  "QUEENS = 20"

definition BOARDSIZE :: nat where
  "BOARDSIZE = 20"

definition POPSIZE :: nat where
  "POPSIZE = 2000"

definition MAXGENERATIONS :: nat where
  "MAXGENERATIONS = 3000"

type_synonym BoardPosIndex = nat

type_synonym FreePosIndex = nat

type_synonym Solution = "FreePosIndex list"

type_synonym Population = "Solution list"

record Board =
  width :: nat
  data :: "PosType list"

type_synonym PopulationFitness = "real list"

datatype Position = Position (pos_x: nat) (pos_y: nat)

text \<open>The error of \<^verbatim>\<open>errors.New("No available position")\<close>.\<close>

datatype error = NoAvailablePosition

subsection \<open>Unsigned 64-bit arithmetic and slice access\<close>

definition uadd :: "nat \<Rightarrow> nat \<Rightarrow> nat" where
  "uadd a b = (a + b) mod 2 ^ 64"

definition usub :: "nat \<Rightarrow> nat \<Rightarrow> nat" where
  "usub a b = nat ((int a - int b) mod 2 ^ 64)"

definition umul :: "nat \<Rightarrow> nat \<Rightarrow> nat" where
  "umul a b = (a * b) mod 2 ^ 64"

text \<open>\<^verbatim>\<open>s[i]\<close> read and \<^verbatim>\<open>s[i] = v\<close>: Go panics when \<open>i\<close> is not below \<^verbatim>\<open>len(s)\<close>.\<close>

definition load :: "'a list \<Rightarrow> nat \<Rightarrow> 'a option" where
  "load s i = (if i < length s then Some (s ! i) else None)"

definition store :: "'a list \<Rightarrow> nat \<Rightarrow> 'a \<Rightarrow> 'a list option" where
  "store s i v = (if i < length s then Some (s[i := v]) else None)"

subsection \<open>Boards and placement\<close>

definition NewPopulationFitness :: "nat \<Rightarrow> PopulationFitness" where
  "NewPopulationFitness popsize = replicate popsize 0"

definition NewBoard :: "nat \<Rightarrow> Board" where
  "NewBoard w = \<lparr>width = w, data = replicate (umul w w) FREE\<rparr>"

definition NewSolution :: "nat \<Rightarrow> Solution" where
  "NewSolution numqueens = replicate numqueens 0"

text \<open>\<^verbatim>\<open>pos2xy\<close>: the two nested loops over \<^verbatim>\<open>p.y\<close> and \<^verbatim>\<open>p.x\<close>, with the running index \<open>i\<close>.\<close>

function pos2xy_loop :: "nat \<Rightarrow> BoardPosIndex \<Rightarrow> nat \<Rightarrow> nat \<Rightarrow> BoardPosIndex \<Rightarrow> Position" where
  "pos2xy_loop bs pos py px i =
     (if py < bs then
        (if px < bs then
           (if i = pos then Position px py
            else pos2xy_loop bs pos py (px + 1) (i + 1))
         else pos2xy_loop bs pos (py + 1) 0 i)
      else Position 255 255)"
  by pat_completeness auto
termination
  by (relation "inv_image (less_than <*lex*> less_than)
        (\<lambda>(bs, pos, py, px, i). (bs - py, Suc bs - px))") auto

declare pos2xy_loop.simps [simp del]

definition pos2xy :: "nat \<Rightarrow> BoardPosIndex \<Rightarrow> Position" where
  "pos2xy bs pos = pos2xy_loop bs pos 0 0 0"

text \<open>
  The body of the two covering loops of \<^verbatim>\<open>place\<close> at the cell \<open>(cx, cy)\<close>, for the queen at
  \<open>orig\<close>: the row and column mark, the mark on the diagonal from upper left to lower right,
  and the mark on the diagonal from upper right to lower left. The comparisons
  \<^verbatim>\<open>diagx >= 0\<close> and \<^verbatim>\<open>diagy >= 0\<close> are on unsigned values.
\<close>

definition mark_cell :: "nat \<Rightarrow> nat \<Rightarrow> Position \<Rightarrow> nat \<Rightarrow> nat \<Rightarrow> PosType list \<Rightarrow> PosType list option" where
  "mark_cell bs w orig cx cy d =
     (let height = w; maxx = usub w 1 in
      do {
        d1 \<leftarrow> (if pos_x orig = cx \<or> pos_y orig = cy
               then store d (uadd (umul cy w) cx) COVERED else Some d);
        d2 \<leftarrow> (if cx = cy then
                 (let diagx = usub (uadd cx (pos_x orig)) (pos_y orig); diagy = cy in
                  if (0 \<le> diagx \<and> 0 \<le> diagy) \<and> (diagx < w \<and> diagy < height)
                  then store d1 (uadd (umul diagy w) diagx) COVERED else Some d1)
               else Some d1);
        (if usub maxx cx = cy then
           (let diagx = uadd (usub cx (usub maxx (pos_x orig))) (pos_y orig);
                diagy = usub (uadd cy (pos_y orig)) (pos_y orig) in
            if (0 \<le> diagx \<and> 0 \<le> diagy) \<and> (diagx < bs \<and> diagy < height)
            then store d2 (uadd (umul diagy w) diagx) COVERED else Some d2)
         else Some d2)
      })"

text \<open>The inner loop \<^verbatim>\<open>for x = 0; x < width; x++\<close> from \<open>cx\<close> on, in the row \<open>cy\<close>.\<close>

function cover_row :: "nat \<Rightarrow> nat \<Rightarrow> Position \<Rightarrow> nat \<Rightarrow> nat \<Rightarrow> PosType list \<Rightarrow> PosType list option" where
  "cover_row bs w orig cy cx d =
     (if cx < w then
        (case mark_cell bs w orig cx cy d of
           None \<Rightarrow> None
         | Some d' \<Rightarrow> cover_row bs w orig cy (cx + 1) d')
      else Some d)"
  by pat_completeness auto
termination
  by (relation "measure (\<lambda>(bs, w, orig, cy, cx, d). w - cx)") auto

declare cover_row.simps [simp del]

text \<open>The outer loop \<^verbatim>\<open>for y = 0; y < height; y++\<close> from \<open>cy\<close> on (\<^verbatim>\<open>height := width\<close>).\<close>

function cover_rows :: "nat \<Rightarrow> nat \<Rightarrow> Position \<Rightarrow> nat \<Rightarrow> PosType list \<Rightarrow> PosType list option" where
  "cover_rows bs w orig cy d =
     (if cy < w then
        (case cover_row bs w orig cy 0 d of
           None \<Rightarrow> None
         | Some d' \<Rightarrow> cover_rows bs w orig (cy + 1) d')
      else Some d)"
  by pat_completeness auto
termination
  by (relation "measure (\<lambda>(bs, w, orig, cy, d). w - cy)") auto

declare cover_rows.simps [simp del]

text \<open>
  The scanning loop of \<^verbatim>\<open>place\<close> from \<open>usepos\<close> on, with \<open>freepos\<close> free cells counted so
  far. The result is the board (changed only by a successful placement) and either the
  error or the board index of the queen.
\<close>

function place_loop :: "nat \<Rightarrow> Board \<Rightarrow> FreePosIndex \<Rightarrow> FreePosIndex \<Rightarrow> BoardPosIndex
    \<Rightarrow> (Board \<times> (error + BoardPosIndex)) option" where
  "place_loop bs b targetpos freepos usepos =
     (if usepos < umul (width b) (width b) then
        (case (if targetpos = freepos
               then map_option (\<lambda>c. c = FREE) (load (data b) usepos) else Some False) of
           None \<Rightarrow> None
         | Some True \<Rightarrow>
             (case cover_rows bs (width b) (pos2xy bs usepos) 0 (data b) of
                None \<Rightarrow> None
              | Some d' \<Rightarrow>
                  (case store d' usepos QUEEN of
                     None \<Rightarrow> None
                   | Some d'' \<Rightarrow> Some (b\<lparr>data := d''\<rparr>, Inr usepos)))
         | Some False \<Rightarrow>
             (case load (data b) usepos of
                None \<Rightarrow> None
              | Some c \<Rightarrow>
                  place_loop bs b targetpos
                    (if c = FREE then uadd freepos 1 else freepos) (usepos + 1)))
      else Some (b, Inl NoAvailablePosition))"
  by pat_completeness auto
termination
  by (relation "measure (\<lambda>(bs, b, targetpos, freepos, usepos). umul (width b) (width b) - usepos)") auto

declare place_loop.simps [simp del]

definition place :: "nat \<Rightarrow> Board \<Rightarrow> FreePosIndex \<Rightarrow> (Board \<times> (error + BoardPosIndex)) option" where
  "place bs b targetpos = place_loop bs b targetpos 0 0"

text \<open>\<^verbatim>\<open>generateBoard\<close>: the loop over the genes, with the board and \<^verbatim>\<open>queenCounter\<close>.\<close>

fun generateBoard_loop :: "nat \<Rightarrow> Solution \<Rightarrow> Board \<Rightarrow> nat \<Rightarrow> (Board \<times> nat) option" where
  "generateBoard_loop bs [] board queenCounter = Some (board, queenCounter)"
| "generateBoard_loop bs (queenposindex # rest) board queenCounter =
     (case place bs board queenposindex of
        None \<Rightarrow> None
      | Some (board', Inr _) \<Rightarrow> generateBoard_loop bs rest board' (uadd queenCounter 1)
      | Some (board', Inl _) \<Rightarrow> generateBoard_loop bs rest board' queenCounter)"

definition generateBoard :: "nat \<Rightarrow> Solution \<Rightarrow> (Board \<times> nat) option" where
  "generateBoard bs sol = generateBoard_loop bs sol (NewBoard bs) 0"

definition fitness :: "nat \<Rightarrow> nat \<Rightarrow> Solution \<Rightarrow> real option" where
  "fitness bs nq sol =
     (case generateBoard bs sol of
        None \<Rightarrow> None
      | Some (_, numqueens) \<Rightarrow> Some (real numqueens / real nq))"

subsection \<open>Decoding through pointers\<close>

text \<open>
  \<^verbatim>\<open>NewBoard\<close> returns a pointer and \<^verbatim>\<open>place\<close> has a pointer receiver. The heap of boards is a
  list, an address is an index into it, and an allocation appends a cell.
  \<open>generateBoard_h\<close> is \<^verbatim>\<open>generateBoard\<close> run on such a heap: it returns the address of its
  board, the queen counter and the heap it leaves behind.
\<close>

type_synonym heap = "Board list"

definition NewBoard_h :: "nat \<Rightarrow> heap \<Rightarrow> nat \<times> heap" where
  "NewBoard_h w h = (length h, h @ [NewBoard w])"

definition place_h :: "nat \<Rightarrow> nat \<Rightarrow> FreePosIndex \<Rightarrow> heap \<Rightarrow> ((error + BoardPosIndex) \<times> heap) option" where
  "place_h bs a targetpos h =
     (case load h a of
        None \<Rightarrow> None
      | Some b \<Rightarrow>
          (case place bs b targetpos of
             None \<Rightarrow> None
           | Some (b', res) \<Rightarrow> Some (res, h[a := b'])))"

fun generateBoard_h_loop :: "nat \<Rightarrow> Solution \<Rightarrow> nat \<Rightarrow> nat \<Rightarrow> heap \<Rightarrow> (nat \<times> nat \<times> heap) option" where
  "generateBoard_h_loop bs [] board queenCounter h = Some (board, queenCounter, h)"
| "generateBoard_h_loop bs (queenposindex # rest) board queenCounter h =
     (case place_h bs board queenposindex h of
        None \<Rightarrow> None
      | Some (Inr _, h') \<Rightarrow> generateBoard_h_loop bs rest board (uadd queenCounter 1) h'
      | Some (Inl _, h') \<Rightarrow> generateBoard_h_loop bs rest board queenCounter h')"

definition generateBoard_h :: "nat \<Rightarrow> Solution \<Rightarrow> heap \<Rightarrow> (nat \<times> nat \<times> heap) option" where
  "generateBoard_h bs sol h =
     (case NewBoard_h bs h of (board, h') \<Rightarrow> generateBoard_h_loop bs sol board 0 h')"

text \<open>A sequence of decodes, one after the other on the same heap: board, counter and
  fitness of each.\<close>

fun decode_all :: "nat \<Rightarrow> nat \<Rightarrow> Solution list \<Rightarrow> heap \<Rightarrow> ((Board \<times> nat \<times> real) list \<times> heap) option" where
  "decode_all bs nq [] h = Some ([], h)"
| "decode_all bs nq (sol # sols) h =
     (case generateBoard_h bs sol h of
        None \<Rightarrow> None
      | Some (a, numqueens, h') \<Rightarrow>
          (case load h' a of
             None \<Rightarrow> None
           | Some b \<Rightarrow>
               (case decode_all bs nq sols h' of
                  None \<Rightarrow> None
                | Some (rs, h'') \<Rightarrow> Some ((b, numqueens, real numqueens / real nq) # rs, h''))))"

subsection \<open>The random source\<close>

text \<open>
  The process-wide source of \<^verbatim>\<open>math/rand\<close> is a state of type \<open>'r\<close> with the two draws the
  program makes; both are parameters. \<^verbatim>\<open>rand.Intn\<close> panics on a bound that is not positive
  as an \<^verbatim>\<open>int\<close>.
\<close>

record 'r Rand =
  rand_Intn :: "nat \<Rightarrow> 'r \<Rightarrow> nat \<times> 'r"
  rand_Float64 :: "'r \<Rightarrow> real \<times> 'r"

definition Intn :: "'r Rand \<Rightarrow> nat \<Rightarrow> 'r \<Rightarrow> (nat \<times> 'r) option" where
  "Intn R n r = (if n = 0 \<or> 2 ^ 63 \<le> n then None else Some (rand_Intn R n r))"

subsection \<open>Solutions and populations\<close>

function NewRandomSolution_loop :: "'r Rand \<Rightarrow> nat \<Rightarrow> BoardPosIndex \<Rightarrow> nat \<Rightarrow> Solution \<Rightarrow> 'r
    \<Rightarrow> (Solution \<times> 'r) option" where
  "NewRandomSolution_loop R numqueens maxboardpos i sol r =
     (if i < numqueens then
        (case Intn R maxboardpos r of
           None \<Rightarrow> None
         | Some (v, r') \<Rightarrow>
             (case store sol i v of
                None \<Rightarrow> None
              | Some sol' \<Rightarrow> NewRandomSolution_loop R numqueens maxboardpos (i + 1) sol' r'))
      else Some (sol, r))"
  by pat_completeness auto
termination
  by (relation "measure (\<lambda>(R, numqueens, maxboardpos, i, sol, r). numqueens - i)") auto

declare NewRandomSolution_loop.simps [simp del]

definition NewRandomSolution :: "'r Rand \<Rightarrow> nat \<Rightarrow> BoardPosIndex \<Rightarrow> 'r \<Rightarrow> (Solution \<times> 'r) option" where
  "NewRandomSolution R numqueens maxboardpos r =
     NewRandomSolution_loop R numqueens maxboardpos 0 (NewSolution numqueens) r"




text \<open>The two loops of \<^verbatim>\<open>crossover\<close> are \<^verbatim>\<open>for ; i < hi; i++ { c[i] = src[i] }\<close>, the first
  from \<open>0\<close> to \<^verbatim>\<open>point\<close> over \<open>a\<close>, the second from \<^verbatim>\<open>point\<close> to \<^verbatim>\<open>numqueens\<close> over \<open>b\<close>.\<close>

function copy_genes :: "Solution \<Rightarrow> nat \<Rightarrow> nat \<Rightarrow> Solution \<Rightarrow> Solution option" where
  "copy_genes src hi i c =
     (if i < hi then
        (case load src i of
           None \<Rightarrow> None
         | Some v \<Rightarrow>
             (case store c i v of
                None \<Rightarrow> None
              | Some c' \<Rightarrow> copy_genes src hi (i + 1) c'))
      else Some c)"
  by pat_completeness auto
termination
  by (relation "measure (\<lambda>(src, hi, i, c). hi - i)") auto

declare copy_genes.simps [simp del]

definition crossover :: "Solution \<Rightarrow> Solution \<Rightarrow> nat \<Rightarrow> nat \<Rightarrow> Solution option" where
  "crossover a b point numqueens =
     (case copy_genes a point 0 (NewSolution numqueens) of
        None \<Rightarrow> None
      | Some c \<Rightarrow> copy_genes b numqueens point c)"

text \<open>
  \<^verbatim>\<open>crossover\<close> on a heap of slices, for what it does to its arguments: \<open>a\<close> and \<open>b\<close> are the
  addresses of the parents (they may be the same slice), \<^verbatim>\<open>NewSolution\<close> allocates the child, and
  the result is the address of the child and the heap.
\<close>

type_synonym sheap = "Solution list"

definition NewSolution_h :: "nat \<Rightarrow> sheap \<Rightarrow> nat \<times> sheap" where
  "NewSolution_h numqueens h = (length h, h @ [NewSolution numqueens])"

function copy_genes_h :: "nat \<Rightarrow> nat \<Rightarrow> nat \<Rightarrow> nat \<Rightarrow> sheap \<Rightarrow> sheap option" where
  "copy_genes_h src hi i c h =
     (if i < hi then
        (case load h src of
           None \<Rightarrow> None
         | Some s \<Rightarrow>
             (case load s i of
                None \<Rightarrow> None
              | Some v \<Rightarrow>
                  (case load h c of
                     None \<Rightarrow> None
                   | Some cs \<Rightarrow>
                       (case store cs i v of
                          None \<Rightarrow> None
                        | Some cs' \<Rightarrow> copy_genes_h src hi (i + 1) c (h[c := cs'])))))
      else Some h)"
  by pat_completeness auto
termination
  by (relation "measure (\<lambda>(src, hi, i, c, h). hi - i)") auto

declare copy_genes_h.simps [simp del]

definition crossover_h :: "nat \<Rightarrow> nat \<Rightarrow> nat \<Rightarrow> nat \<Rightarrow> sheap \<Rightarrow> (nat \<times> sheap) option" where
  "crossover_h a b point numqueens h =
     (case NewSolution_h numqueens h of (c, h1) \<Rightarrow>
        (case copy_genes_h a point 0 c h1 of
           None \<Rightarrow> None
         | Some h2 \<Rightarrow>
             (case copy_genes_h b numqueens point c h2 of
                None \<Rightarrow> None
              | Some h3 \<Rightarrow> Some (c, h3))))"

definition mutate :: "'r Rand \<Rightarrow> Solution \<Rightarrow> nat \<Rightarrow> BoardPosIndex \<Rightarrow> 'r \<Rightarrow> (Solution \<times> 'r) option" where
  "mutate R sol numqueens maxboardpos r =
     do {
       (randpos, r1) \<leftarrow> Intn R numqueens r;
       (v, r2) \<leftarrow> Intn R maxboardpos r1;
       sol' \<leftarrow> store sol randpos v;
       Some (sol', r2)
     }"

definition sum_scores :: "real list \<Rightarrow> real" where
  "sum_scores scores = fold (\<lambda>score total. total + score) scores 0"

subsection \<open>One generation of \<^verbatim>\<open>main\<close>\<close>

text \<open>The loop \<^verbatim>\<open>for i, s := range pop { fit[i] = s.fitness() }\<close>.\<close>

fun fitness_loop :: "nat \<Rightarrow> nat \<Rightarrow> Population \<Rightarrow> nat \<Rightarrow> PopulationFitness \<Rightarrow> PopulationFitness option" where
  "fitness_loop bs nq [] i fit = Some fit"
| "fitness_loop bs nq (s # rest) i fit =
     (case fitness bs nq s of
        None \<Rightarrow> None
      | Some f \<Rightarrow>
          (case store fit i f of
             None \<Rightarrow> None
           | Some fit' \<Rightarrow> fitness_loop bs nq rest (i + 1) fit'))"

text \<open>
  The scan for the best and the next best individual (lines 265 to 275). The variable
  \<^verbatim>\<open>bestfitnessindex\<close> is declared before the generation loop, so the scan starts from the
  value the previous generation left in it; the three others are declared afresh.
\<close>

record Selection =
  bestfitness :: real
  nextbestfitness :: real
  nextbestfitnessindex :: nat
  bestfitnessindex :: nat

definition select_step :: "PopulationFitness \<Rightarrow> nat \<Rightarrow> Selection \<Rightarrow> Selection" where
  "select_step fit i s =
     (if fit ! i \<ge> bestfitness s
      then \<lparr>bestfitness = fit ! i, nextbestfitness = bestfitness s,
            nextbestfitnessindex = bestfitnessindex s, bestfitnessindex = i\<rparr>
      else s)"

definition select_best :: "PopulationFitness \<Rightarrow> nat \<Rightarrow> Selection" where
  "select_best fit previndex =
     fold (select_step fit) [0..<length fit]
       \<lparr>bestfitness = 0, nextbestfitness = 0, nextbestfitnessindex = 0,
        bestfitnessindex = previndex\<rparr>"

text \<open>The replacement of a weak individual (lines 287 to 298); \<open>f\<close> is \<^verbatim>\<open>fit[i]\<close>.\<close>

definition replace_weak :: "'r Rand \<Rightarrow> nat \<Rightarrow> real \<Rightarrow> real \<Rightarrow> nat \<Rightarrow> Population \<Rightarrow> 'r
    \<Rightarrow> (Population \<times> 'r) option" where
  "replace_weak R nq average f i pop r =
     (if average > 0.7 \<and> f < 0.5 then map_option (\<lambda>p. (p, r)) (store pop i (NewSolution nq))
      else if average > 0.8 \<and> f < 0.6 then map_option (\<lambda>p. (p, r)) (store pop i (NewSolution nq))
      else if average > 0.9 \<and> f < 0.7 then map_option (\<lambda>p. (p, r)) (store pop i (NewSolution nq))
      else if f < average * 0.3 then
        (case rand_Float64 R r of (u, r') \<Rightarrow>
           if u \<le> 0.5 then map_option (\<lambda>p. (p, r')) (store pop i (NewSolution nq))
           else Some (pop, r'))
      else Some (pop, r))"

text \<open>The mutation of a random individual (lines 322 to 324).\<close>

definition mutation_op :: "'r Rand \<Rightarrow> nat \<Rightarrow> nat \<Rightarrow> nat \<Rightarrow> real \<Rightarrow> Population \<Rightarrow> 'r
    \<Rightarrow> (Population \<times> 'r) option" where
  "mutation_op R nq bs popsize mutrate pop r =
     (case rand_Float64 R r of (u, r1) \<Rightarrow>
        if u \<le> mutrate then
          do {
            (j, r2) \<leftarrow> Intn R popsize r1;
            sol \<leftarrow> load pop j;
            (sol', r3) \<leftarrow> mutate R sol nq (umul bs bs) r2;
            pop' \<leftarrow> store pop j sol';
            Some (pop', r3)
          }
        else Some (pop, r1))"

text \<open>The crossover into individual \<open>i\<close> (lines 326 to 329).\<close>

definition crossover_op :: "'r Rand \<Rightarrow> nat \<Rightarrow> real \<Rightarrow> Selection \<Rightarrow> nat \<Rightarrow> Population \<Rightarrow> 'r
    \<Rightarrow> (Population \<times> 'r) option" where
  "crossover_op R nq crossrate sel i pop r =
     (case rand_Float64 R r of (u, r1) \<Rightarrow>
        if u \<le> crossrate then
          do {
            (crossoverpoint, r2) \<leftarrow> Intn R nq r1;
            a \<leftarrow> load pop (bestfitnessindex sel);
            b \<leftarrow> load pop (nextbestfitnessindex sel);
            c \<leftarrow> crossover a b crossoverpoint nq;
            pop' \<leftarrow> store pop i c;
            Some (pop', r2)
          }
        else Some (pop, r1))"

text \<open>The new individual in place of \<open>i\<close> (lines 331 to 333).\<close>

definition newpop_op :: "'r Rand \<Rightarrow> nat \<Rightarrow> real \<Rightarrow> nat \<Rightarrow> Population \<Rightarrow> 'r
    \<Rightarrow> (Population \<times> 'r) option" where
  "newpop_op R nq newpoprate i pop r =
     (case rand_Float64 R r of (u, r1) \<Rightarrow>
        if u \<le> newpoprate then map_option (\<lambda>p. (p, r1)) (store pop i (NewSolution nq))
        else Some (pop, r1))"

text \<open>The body of the loop \<^verbatim>\<open>for i, _ := range pop\<close> (lines 286 to 333).\<close>

definition operator_step :: "'r Rand \<Rightarrow> nat \<Rightarrow> nat \<Rightarrow> nat \<Rightarrow> real \<Rightarrow> Selection \<Rightarrow> PopulationFitness
    \<Rightarrow> nat \<Rightarrow> Population \<times> 'r \<Rightarrow> (Population \<times> 'r) option" where
  "operator_step R nq bs popsize average sel fit i st =
     (case st of (pop, r) \<Rightarrow>
      do {
        f \<leftarrow> load fit i;
        (pop1, r1) \<leftarrow> replace_weak R nq average f i pop r;
        let mutrate0 = (if bestfitness sel > average then 0.15 else 0.4);
        let crossrate = (if bestfitness sel > average then 0.07 else 0.4);
        let mutrate = (if bestfitness sel = nextbestfitness sel then mutrate0 * 3.0 else mutrate0);
        let newpoprate = (if average > 0.9 then 0.4 else 0.2);
        let (skip, r2) = (if f > bestfitness sel * 0.9
                          then (case rand_Float64 R r1 of (u, r') \<Rightarrow> (u \<le> 0.9, r'))
                          else (False, r1));
        if skip then Some (pop1, r2)
        else do {
          (pop2, r3) \<leftarrow> mutation_op R nq bs popsize mutrate pop1 r2;
          (pop3, r4) \<leftarrow> crossover_op R nq crossrate sel i pop2 r3;
          newpop_op R nq newpoprate i pop3 r4
        }
      })"

fun operator_pass_loop :: "'r Rand \<Rightarrow> nat \<Rightarrow> nat \<Rightarrow> nat \<Rightarrow> real \<Rightarrow> Selection \<Rightarrow> PopulationFitness
    \<Rightarrow> nat list \<Rightarrow> Population \<times> 'r \<Rightarrow> (Population \<times> 'r) option" where
  "operator_pass_loop R nq bs popsize average sel fit [] st = Some st"
| "operator_pass_loop R nq bs popsize average sel fit (i # rest) st =
     (case operator_step R nq bs popsize average sel fit i st of
        None \<Rightarrow> None
      | Some st' \<Rightarrow> operator_pass_loop R nq bs popsize average sel fit rest st')"

definition operator_pass :: "'r Rand \<Rightarrow> nat \<Rightarrow> nat \<Rightarrow> nat \<Rightarrow> real \<Rightarrow> Selection \<Rightarrow> PopulationFitness
    \<Rightarrow> Population \<times> 'r \<Rightarrow> (Population \<times> 'r) option" where
  "operator_pass R nq bs popsize average sel fit st =
     operator_pass_loop R nq bs popsize average sel fit [0..<length (fst st)] st"

text \<open>
  The body of the generation loop. The state is the population, \<^verbatim>\<open>bestfitnessindex\<close> and
  the random source; the flag of the result says whether the loop was left by \<^verbatim>\<open>break\<close>.
\<close>

definition run_generation :: "'r Rand \<Rightarrow> nat \<Rightarrow> nat \<Rightarrow> nat \<Rightarrow> Population \<times> nat \<times> 'r
    \<Rightarrow> (bool \<times> Population \<times> nat \<times> 'r) option" where
  "run_generation R nq bs popsize st =
     (case st of (pop, previndex, r) \<Rightarrow>
      do {
        fit \<leftarrow> fitness_loop bs nq pop 0 (NewPopulationFitness popsize);
        let total = sum_scores fit;
        let average = total / real popsize;
        let sel = select_best fit previndex;
        if bestfitness sel = 1.0 then Some (True, pop, bestfitnessindex sel, r)
        else do {
          (pop', r') \<leftarrow> operator_pass R nq bs popsize average sel fit (pop, r);
          Some (False, pop', bestfitnessindex sel, r')
        }
      })"




subsection \<open>Notions for the statements\<close>

text \<open>
  Cell \<open>i\<close> of a board of width \<open>n\<close> has the column \<open>i mod n\<close> and the row \<open>i div n\<close>.
  Two cells attack each other when they share the row, the column, the diagonal from
  upper left to lower right or the diagonal from upper right to lower left (a cell
  attacks itself).
\<close>

definition attacks :: "nat \<Rightarrow> nat \<Rightarrow> nat \<Rightarrow> bool" where
  "attacks n p i =
     (p div n = i div n \<or> p mod n = i mod n \<or>
      p mod n + i div n = i mod n + p div n \<or>
      p mod n + p div n = i mod n + i div n)"

text \<open>The board indices of the free cells, in the order of the scan of \<^verbatim>\<open>place\<close>.\<close>

definition free_cells :: "PosType list \<Rightarrow> nat list" where
  "free_cells d = filter (\<lambda>i. d ! i = FREE) [0..<length d]"

text \<open>
  The board indices that the covering loops of \<^verbatim>\<open>place\<close> write, once the wrap-around of the
  diagonal coordinates is resolved: at the cell \<open>(cx, cy)\<close> (\<open>cell_marks\<close>), in the row \<open>cy\<close>
  from the column \<open>cx\<close> on (\<open>row_marks\<close>) and in the rows from \<open>cy\<close> on (\<open>board_marks\<close>), for
  the queen at \<open>(ox, oy)\<close>.
\<close>

definition cell_marks :: "nat \<Rightarrow> nat \<Rightarrow> nat \<Rightarrow> nat \<Rightarrow> nat \<Rightarrow> nat list" where
  "cell_marks n ox oy cx cy =
     (if ox = cx \<or> oy = cy then [cy * n + cx] else []) @
     (if cx = cy \<and> oy \<le> cx + ox \<and> cx + ox - oy < n then [cy * n + (cx + ox - oy)] else []) @
     (if Suc (cx + cy) = n \<and> cy \<le> ox + oy \<and> ox + oy - cy < n then [cy * n + (ox + oy - cy)] else [])"

definition row_marks :: "nat \<Rightarrow> nat \<Rightarrow> nat \<Rightarrow> nat \<Rightarrow> nat \<Rightarrow> nat list" where
  "row_marks n ox oy cy cx = concat (map (\<lambda>x. cell_marks n ox oy x cy) [cx..<n])"

definition board_marks :: "nat \<Rightarrow> nat \<Rightarrow> nat \<Rightarrow> nat \<Rightarrow> nat list" where
  "board_marks n ox oy cy = concat (map (\<lambda>y. row_marks n ox oy y 0) [cy..<n])"

text \<open>Writing \<open>COVERED\<close> at a list of indices (\<open>mark_all\<close>), and the cells of the board after
  a queen went to cell \<open>p\<close> (\<open>placed\<close>).\<close>

definition mark_all :: "nat list \<Rightarrow> PosType list \<Rightarrow> PosType list" where
  "mark_all js d = fold (\<lambda>j d. d[j := COVERED]) js d"

definition placed :: "nat \<Rightarrow> PosType list \<Rightarrow> nat \<Rightarrow> PosType list" where
  "placed n d p = (mark_all (board_marks n (p mod n) (p div n) 0) d)[p := QUEEN]"

text \<open>The board indices of the queens, the number of free cells, and a list of cells no
  two of which attack each other.\<close>

definition queen_cells :: "PosType list \<Rightarrow> nat list" where
  "queen_cells d = filter (\<lambda>i. d ! i = QUEEN) [0..<length d]"

definition free_count :: "PosType list \<Rightarrow> nat" where
  "free_count d = length (filter (\<lambda>c. c = FREE) d)"

definition non_attacking :: "nat \<Rightarrow> nat list \<Rightarrow> bool" where
  "non_attacking n qs \<longleftrightarrow> (\<forall>p\<in>set qs. \<forall>i\<in>set qs. p \<noteq> i \<longrightarrow> \<not> attacks n p i)"

text \<open>The invariant of decoding: the board has its \<open>n * n\<close> cells, and every cell that a
  queen attacks is covered.\<close>

definition board_ok :: "nat \<Rightarrow> Board \<Rightarrow> bool" where
  "board_ok n b \<longleftrightarrow>
     width b = n \<and> length (data b) = n * n \<and>
     (\<forall>p<n * n. \<forall>i<n * n. data b ! p = QUEEN \<and> i \<noteq> p \<and> attacks n p i \<longrightarrow> data b ! i = COVERED)"

text \<open>The selection scan after the indices below \<open>k\<close>.\<close>

definition scan_to :: "PopulationFitness \<Rightarrow> nat \<Rightarrow> nat \<Rightarrow> Selection" where
  "scan_to fit previndex k =
     fold (select_step fit) [0..<k]
       \<lparr>bestfitness = 0, nextbestfitness = 0, nextbestfitnessindex = 0,
        bestfitnessindex = previndex\<rparr>"





section \<open>Properties\<close>

text \<open>
  The theorems below hold for every board width \<open>n\<close> below \<open>2 ^ 32\<close> and every number of queens
  \<open>q > 0\<close>; the constants of the source are among them.
\<close>

lemma source_constants: "BOARDSIZE < 2 ^ 32" "0 < QUEENS" "QUEENS = BOARDSIZE"
  by (simp_all add: BOARDSIZE_def QUEENS_def)

subsection \<open>Arithmetic within the board\<close>

text \<open>
  On a board of width below \<open>2 ^ 32\<close> the index \<open>y * width + x\<close> does not wrap. The diagonal
  coordinate \<open>(x + o.x) - o.y\<close> wraps exactly when \<open>o.y > x + o.x\<close>, and the wrapped value is not
  below the width; so for \<open>(x - (maxx - o.x)) + o.y\<close>, whose intermediate difference may
  wrap and whose sum wraps back.
\<close>

lemma usub_le: "b \<le> a \<Longrightarrow> a < 2 ^ 64 \<Longrightarrow> usub a b = a - b"
  by (simp add: usub_def nat_diff_distrib' of_nat_diff)

lemma umul_small: "a < 2 ^ 32 \<Longrightarrow> b < 2 ^ 32 \<Longrightarrow> umul a b = a * b"
proof -
  assume a: "a < 2 ^ 32" and b: "b < 2 ^ 32"
  have "a * b < 2 ^ 32 * 2 ^ 32"
    using a b by (intro mult_strict_mono) auto
  then show ?thesis by (simp add: umul_def)
qed

lemma cell_index_less: "cx < n \<Longrightarrow> cy < n \<Longrightarrow> cy * n + cx < n * (n::nat)"
proof -
  assume a: "cx < n" and b: "cy < n"
  have "cy * n + cx < cy * n + n" using a by simp
  also have "\<dots> = Suc cy * n" by simp
  also have "\<dots> \<le> n * n" using b by (metis Suc_leI mult_le_mono1)
  finally show ?thesis .
qed

lemma square_less: "n < 2 ^ 32 \<Longrightarrow> n * n < (2::nat) ^ 64"
proof -
  assume a: "n < 2 ^ 32"
  have "n * n < 2 ^ 32 * 2 ^ 32"
    using a by (intro mult_strict_mono) auto
  then show ?thesis by simp
qed

lemma cell_index: "n < 2 ^ 32 \<Longrightarrow> cx < n \<Longrightarrow> cy < n \<Longrightarrow> uadd (umul cy n) cx = cy * n + cx"
  using cell_index_less[of cx n cy] square_less[of n]
  by (simp add: umul_small uadd_def)

lemma wrap_neg: "- (2 ^ 64) \<le> v \<Longrightarrow> v < 0 \<Longrightarrow> (v::int) mod 2 ^ 64 = v + 2 ^ 64"
  by (smt (verit) mod_add_self2 mod_pos_pos_trivial)

lemma diag_down_in: 
  assumes "n < 2 ^ 32" "cx < n" "ox < n" "oy \<le> cx + ox"
  shows "usub (uadd cx ox) oy = cx + ox - oy"
  using assms unfolding usub_def uadd_def
  by (auto simp: nat_diff_distrib' of_nat_diff nat_add_distrib zmod_int)

lemma diag_down_out: 
  assumes "n < 2 ^ 32" "cx < n" "ox < n" "oy < n" "\<not> oy \<le> cx + ox"
  shows "\<not> usub (uadd cx ox) oy < n"
proof -
  have "uadd cx ox = cx + ox" using assms by (simp add: uadd_def)
  moreover have "(int (cx + ox) - int oy) mod 2 ^ 64 = int (cx + ox) - int oy + 2 ^ 64"
    using assms by (intro wrap_neg) auto
  ultimately have "usub (uadd cx ox) oy = nat (int (cx + ox) - int oy + 2 ^ 64)"
    by (simp add: usub_def)
  then show ?thesis using assms by simp
qed

lemma uadd_usub: "uadd (usub a b) c = nat ((int a - int b + int c) mod 2 ^ 64)"
proof -
  have "int (uadd (usub a b) c) = ((int a - int b) mod 2 ^ 64 + int c) mod 2 ^ 64"
    by (simp add: uadd_def usub_def zmod_int)
  also have "\<dots> = (int a - int b + int c) mod 2 ^ 64"
    by (simp add: mod_add_left_eq)
  finally show ?thesis by (metis nat_int)
qed

lemma maxx_minus:
  assumes "n < 2 ^ 32" "cx < n"
  shows "usub (usub n (Suc 0)) cx = n - 1 - cx"
  using assms by (simp add: usub_le)

lemma anti_in:
  assumes "n < 2 ^ 32" "cx < n" "cy < n" "ox < n" "oy < n" "Suc (cx + cy) = n" "cy \<le> ox + oy"
  shows "uadd (usub cx (usub (usub n (Suc 0)) ox)) oy = ox + oy - cy"
proof -
  have m: "usub (usub n (Suc 0)) ox = n - 1 - ox" using assms(1,4) by (rule maxx_minus)
  have e: "int cx - int (usub (usub n (Suc 0)) ox) + int oy = int (ox + oy - cy)"
    unfolding m using assms by (simp add: of_nat_diff)
  have w: "int (ox + oy - cy) mod 2 ^ 64 = int (ox + oy - cy)"
    using assms by (intro mod_pos_pos_trivial) auto
  show ?thesis unfolding uadd_usub e w by (rule nat_int)
qed

lemma anti_out:
  assumes "n < 2 ^ 32" "cx < n" "cy < n" "ox < n" "oy < n" "Suc (cx + cy) = n" "\<not> cy \<le> ox + oy"
  shows "\<not> uadd (usub cx (usub (usub n (Suc 0)) ox)) oy < n"
proof -
  have m: "usub (usub n (Suc 0)) ox = n - 1 - ox" using assms(1,4) by (rule maxx_minus)
  have e: "int cx - int (usub (usub n (Suc 0)) ox) + int oy = int ox + int oy - int cy"
    unfolding m using assms by (simp add: of_nat_diff)
  have w: "(int ox + int oy - int cy) mod 2 ^ 64 = int ox + int oy - int cy + 2 ^ 64"
    using assms by (intro wrap_neg) auto
  have "uadd (usub cx (usub (usub n (Suc 0)) ox)) oy = nat (int ox + int oy - int cy + 2 ^ 64)"
    unfolding uadd_usub e w ..
  then show ?thesis using assms by simp
qed

lemma diagy_same:
  assumes "n < 2 ^ 32" "cy < n" "oy < n"
  shows "usub (uadd cy oy) oy = cy"
  using assms diag_down_in[of n cy oy oy] by simp

subsection \<open>The covering loops\<close>

lemma length_mark_all [simp]: "length (mark_all js d) = length d"
  unfolding mark_all_def by (induction js arbitrary: d) auto

lemma mark_all_append: "mark_all (js @ ks) d = mark_all ks (mark_all js d)"
  by (simp add: mark_all_def)

lemma nth_mark_all:
  "i < length d \<Longrightarrow> mark_all js d ! i = (if i \<in> set js then COVERED else d ! i)"
  unfolding mark_all_def
  by (induction js arbitrary: d) (auto simp: nth_list_update)

lemma mark_cell_eq:
  assumes n: "n < 2 ^ 32" and c: "cx < n" "cy < n" and p: "ox < n" "oy < n"
    and d: "length d = n * n"
  shows "mark_cell n n (Position ox oy) cx cy d = Some (mark_all (cell_marks n ox oy cx cy) d)"
proof -
  define A where "A \<longleftrightarrow> Suc (cx + cy) = n"
  define D where "D \<longleftrightarrow> oy \<le> cx + ox \<and> cx + ox - oy < n"
  define E where "E \<longleftrightarrow> cy \<le> ox + oy \<and> ox + oy - cy < n"
  define j1 where "j1 = cy * n + cx"
  define j2 where "j2 = cy * n + (cx + ox - oy)"
  define j3 where "j3 = cy * n + (ox + oy - cy)"
  have i1: "uadd (umul cy n) cx = j1" 
    unfolding j1_def using n c by (simp add: cell_index)
  have l1: "j1 < length d" unfolding j1_def d using c by (simp add: cell_index_less)
  have mx: "(usub (usub n (Suc 0)) cx = cy) = A"
    unfolding A_def using maxx_minus[OF n c(1)] c by auto
  have dy: "usub (uadd cy oy) oy = cy" using n c p by (simp add: diagy_same)
  have a: "(usub (uadd cx ox) oy < n) = D"
    unfolding D_def
    by (cases "oy \<le> cx + ox") (simp_all add: diag_down_in[OF n c(1) p(1)] diag_down_out[OF n c(1) p])
  have i2: "D \<Longrightarrow> uadd (umul cy n) (usub (uadd cx ox) oy) = j2"
    unfolding D_def j2_def using cell_index[OF n _ c(2), of "cx + ox - oy"]
    by (simp add: diag_down_in[OF n c(1) p(1)])
  have l2: "D \<Longrightarrow> j2 < length d"
    unfolding D_def j2_def d by (rule cell_index_less) (simp_all add: c)
  have b: "A \<Longrightarrow> (uadd (usub cx (usub (usub n (Suc 0)) ox)) oy < n) = E"
    unfolding A_def E_def
    by (cases "cy \<le> ox + oy") (simp_all add: anti_in[OF n c p] anti_out[OF n c p])
  have i3: "A \<Longrightarrow> E \<Longrightarrow> uadd (umul cy n) (uadd (usub cx (usub (usub n (Suc 0)) ox)) oy) = j3"
    unfolding A_def E_def j3_def using cell_index[OF n _ c(2), of "ox + oy - cy"]
    by (simp add: anti_in[OF n c p])
  have l3: "E \<Longrightarrow> j3 < length d"
    unfolding E_def j3_def d by (rule cell_index_less) (simp_all add: c)
  have cm: "cell_marks n ox oy cx cy =
     (if ox = cx \<or> oy = cy then [j1] else []) @ (if cx = cy \<and> D then [j2] else []) @
     (if A \<and> E then [j3] else [])"
    unfolding cell_marks_def A_def D_def E_def j1_def j2_def j3_def by simp
  have st: "j < length d \<Longrightarrow> length e = length d \<Longrightarrow> store e j COVERED = Some (mark_all [j] e)" for j e
    by (simp add: store_def mark_all_def)
  have s1: "(if pos_x (Position ox oy) = cx \<or> pos_y (Position ox oy) = cy
              then store d (uadd (umul cy n) cx) COVERED else Some d)
            = Some (mark_all (if ox = cx \<or> oy = cy then [j1] else []) d)"
    by (simp add: i1 st[OF l1] mark_all_def)
  have s2: "(if cx = cy then
                 (let diagx = usub (uadd cx (pos_x (Position ox oy))) (pos_y (Position ox oy)); diagy = cy in
                  if (0 \<le> diagx \<and> 0 \<le> diagy) \<and> (diagx < n \<and> diagy < n)
                  then store e (uadd (umul diagy n) diagx) COVERED else Some e)
               else Some e)
            = Some (mark_all (if cx = cy \<and> D then [j2] else []) e)" if "length e = length d" for e
  proof (cases "cx = cy \<and> D")
    case True
    then have e: "cx = cy" and D: D by auto
    show ?thesis using c(2) D
      by (simp add: Let_def e a[unfolded e] i2[unfolded e] st[OF l2 that])
  next
    case False
    show ?thesis
    proof (cases "cx = cy")
      case e: True
      with False have "\<not> D" by simp
      then show ?thesis using c(2) by (simp add: Let_def e a[unfolded e] mark_all_def)
    next
      case False
      then show ?thesis by (simp add: mark_all_def)
    qed
  qed
  have s3: "(if usub (usub n 1) cx = cy then
           (let diagx = uadd (usub cx (usub (usub n 1) (pos_x (Position ox oy)))) (pos_y (Position ox oy));
                diagy = usub (uadd cy (pos_y (Position ox oy))) (pos_y (Position ox oy)) in
            if (0 \<le> diagx \<and> 0 \<le> diagy) \<and> (diagx < n \<and> diagy < n)
            then store e (uadd (umul diagy n) diagx) COVERED else Some e)
         else Some e)
            = Some (mark_all (if A \<and> E then [j3] else []) e)" if "length e = length d" for e
  proof (cases "A \<and> E")
    case True
    then have A: A and E: E by auto
    show ?thesis using c(2) A E
      by (simp add: Let_def mx dy b i3 st[OF l3 that])
  next
    case False
    then show ?thesis using c(2) by (cases A) (auto simp add: Let_def mx dy b mark_all_def)
  qed
  show ?thesis
    unfolding mark_cell_def Let_def cm mark_all_append
    apply (subst s1)
    apply (simp only: bind.bind_lunit)
    apply (subst s2[unfolded Let_def])
     apply simp
    apply (simp only: bind.bind_lunit)
    apply (subst s3[unfolded Let_def])
     apply simp
    apply (rule refl)
    done
qed

lemma cover_row_eq:
  assumes n: "n < 2 ^ 32" and c: "cy < n" and p: "ox < n" "oy < n"
  shows "length d = n * n \<Longrightarrow>
    cover_row n n (Position ox oy) cy cx d = Some (mark_all (row_marks n ox oy cy cx) d)"
proof (induction "n - cx" arbitrary: cx d)
  case 0
  then show ?case by (subst cover_row.simps) (simp add: row_marks_def mark_all_def)
next
  case (Suc k)
  then have lt: "cx < n" by simp
  have r: "row_marks n ox oy cy cx = cell_marks n ox oy cx cy @ row_marks n ox oy cy (cx + 1)"
    using lt by (simp add: row_marks_def upt_conv_Cons)
  have k: "k = n - (cx + 1)" using Suc.hyps(2) by simp
  have "cover_row n n (Position ox oy) cy (cx + 1) (mark_all (cell_marks n ox oy cx cy) d)
      = Some (mark_all (row_marks n ox oy cy (cx + 1)) (mark_all (cell_marks n ox oy cx cy) d))"
    by (rule Suc.hyps(1)[OF k]) (simp add: Suc.prems)
  then show ?case
    using lt by (subst cover_row.simps) (simp add: mark_cell_eq[OF n lt c p Suc.prems] r mark_all_append)
qed

lemma cover_rows_eq:
  assumes n: "n < 2 ^ 32" and p: "ox < n" "oy < n"
  shows "length d = n * n \<Longrightarrow>
    cover_rows n n (Position ox oy) cy d = Some (mark_all (board_marks n ox oy cy) d)"
proof (induction "n - cy" arbitrary: cy d)
  case 0
  then show ?case by (subst cover_rows.simps) (simp add: board_marks_def mark_all_def)
next
  case (Suc k)
  then have lt: "cy < n" by simp
  have r: "board_marks n ox oy cy = row_marks n ox oy cy 0 @ board_marks n ox oy (cy + 1)"
    using lt by (simp add: board_marks_def upt_conv_Cons)
  have k: "k = n - (cy + 1)" using Suc.hyps(2) by simp
  have "cover_rows n n (Position ox oy) (cy + 1) (mark_all (row_marks n ox oy cy 0) d)
      = Some (mark_all (board_marks n ox oy (cy + 1)) (mark_all (row_marks n ox oy cy 0) d))"
    by (rule Suc.hyps(1)[OF k]) (simp add: Suc.prems)
  then show ?case
    using lt by (subst cover_rows.simps) (simp add: cover_row_eq[OF n lt p Suc.prems] r mark_all_append)
qed

subsection \<open>The coordinates of a cell and the cells a queen attacks\<close>

lemma pos2xy_loop_eq:
  "px \<le> bs \<Longrightarrow> i = py * bs + px \<Longrightarrow> i \<le> pos \<Longrightarrow> pos < bs * bs \<Longrightarrow>
     pos2xy_loop bs pos py px i = Position (pos mod bs) (pos div bs)"
proof (induction bs pos py px i rule: pos2xy_loop.induct)
  case (1 bs pos py px i)
  have py: "py < bs"
  proof (rule ccontr)
    assume "\<not> py < bs"
    then have "bs * bs \<le> py * bs" by simp
    with 1 show False by simp
  qed
  show ?case
  proof (cases "px < bs")
    case True
    show ?thesis
    proof (cases "i = pos")
      case e: True
      have "(py * bs + px) mod bs = px" "(py * bs + px) div bs = py"
        using True by simp_all
      then show ?thesis using py True 1(4) e by (subst pos2xy_loop.simps) simp
    next
      case False
      then have "pos2xy_loop bs pos py (px + 1) (i + 1) = Position (pos mod bs) (pos div bs)"
        using 1 py True by (intro 1(1)) auto
      then show ?thesis using py True False by (subst pos2xy_loop.simps) simp
    qed
  next
    case False
    then have "pos2xy_loop bs pos (py + 1) 0 i = Position (pos mod bs) (pos div bs)"
      using 1 py by (intro 1(2)) auto
    then show ?thesis using py False by (subst pos2xy_loop.simps) simp
  qed
qed

lemma pos2xy_eq: "pos < bs * bs \<Longrightarrow> pos2xy bs pos = Position (pos mod bs) (pos div bs)"
  unfolding pos2xy_def by (rule pos2xy_loop_eq) auto

lemma mem_cell_marks:
  "j \<in> set (cell_marks n ox oy cx cy) \<longleftrightarrow>
     (j = cy * n + cx \<and> (ox = cx \<or> oy = cy)) \<or>
     (cx = cy \<and> oy \<le> cx + ox \<and> cx + ox - oy < n \<and> j = cy * n + (cx + ox - oy)) \<or>
     (Suc (cx + cy) = n \<and> cy \<le> ox + oy \<and> ox + oy - cy < n \<and> j = cy * n + (ox + oy - cy))"
  by (auto simp: cell_marks_def)

lemma mem_board_marks:
  "j \<in> set (board_marks n ox oy 0) \<longleftrightarrow> (\<exists>cy<n. \<exists>cx<n. j \<in> set (cell_marks n ox oy cx cy))"
  unfolding board_marks_def row_marks_def by (simp add: Bex_def)

lemma cell_mod: "k < n \<Longrightarrow> (cy * n + k) mod n = (k::nat)"
  by simp

lemma cell_div: "k < n \<Longrightarrow> (cy * n + k) div n = (cy::nat)"
  by simp

lemma board_marks_attacks:
  assumes p: "ox < n" "oy < n"
  shows "j \<in> set (board_marks n ox oy 0) \<longleftrightarrow> j < n * n \<and> attacks n (oy * n + ox) j"
proof
  assume "j \<in> set (board_marks n ox oy 0)"
  then obtain cx cy where c: "cx < n" "cy < n" and m: "j \<in> set (cell_marks n ox oy cx cy)"
    by (auto simp: mem_board_marks)
  from m consider
      (rc) "j = cy * n + cx" "ox = cx \<or> oy = cy"
    | (dg) "cx = cy" "oy \<le> cx + ox" "cx + ox - oy < n" "j = cy * n + (cx + ox - oy)"
    | (ad) "Suc (cx + cy) = n" "cy \<le> ox + oy" "ox + oy - cy < n" "j = cy * n + (ox + oy - cy)"
    unfolding mem_cell_marks by blast
  then show "j < n * n \<and> attacks n (oy * n + ox) j"
  proof cases
    case rc
    have "j < n * n" unfolding rc(1) using c by (rule cell_index_less)
    moreover have "j mod n = cx" "j div n = cy" unfolding rc(1) using c by simp_all
    ultimately show ?thesis using rc(2) p by (auto simp: attacks_def)
  next
    case dg
    have "j < n * n" unfolding dg(4) using dg(3) c(2) by (rule cell_index_less)
    moreover have "j mod n = cx + ox - oy" "j div n = cy"
      unfolding dg(4) using dg(3) by (simp_all only: cell_mod cell_div)
    ultimately show ?thesis using dg(1,2) p by (auto simp: attacks_def)
  next
    case ad
    have "j < n * n" unfolding ad(4) using ad(3) c(2) by (rule cell_index_less)
    moreover have "j mod n = ox + oy - cy" "j div n = cy"
      unfolding ad(4) using ad(3) by (simp_all only: cell_mod cell_div)
    ultimately show ?thesis using ad(2) p by (auto simp: attacks_def)
  qed
next
  assume a: "j < n * n \<and> attacks n (oy * n + ox) j"
  define ix where "ix = j mod n"
  define iy where "iy = j div n"
  have n0: "0 < n" using p by simp
  have ix: "ix < n" unfolding ix_def using n0 by simp
  have iy: "iy < n" unfolding iy_def using a by (simp add: less_mult_imp_div_less)
  have j: "j = iy * n + ix" unfolding ix_def iy_def by simp
  have pm: "(oy * n + ox) mod n = ox" "(oy * n + ox) div n = oy" using p by simp_all
  from a consider (row) "oy = iy" | (col) "ox = ix" | (dg) "ox + iy = ix + oy" | (ad) "ox + oy = ix + iy"
    unfolding attacks_def pm ix_def[symmetric] iy_def[symmetric] by blast
  then have "\<exists>cy<n. \<exists>cx<n. j \<in> set (cell_marks n ox oy cx cy)"
  proof cases
    case row
    then have "j \<in> set (cell_marks n ox oy ix iy)" unfolding mem_cell_marks j by simp
    then show ?thesis using ix iy by blast
  next
    case col
    then have "j \<in> set (cell_marks n ox oy ix iy)" unfolding mem_cell_marks j by simp
    then show ?thesis using ix iy by blast
  next
    case dg
    then have "iy + ox - oy = ix" "oy \<le> iy + ox" by simp_all
    then have "j \<in> set (cell_marks n ox oy iy iy)" unfolding mem_cell_marks j using ix by simp
    then show ?thesis using iy by blast
  next
    case ad
    then have "ox + oy - iy = ix" "iy \<le> ox + oy" by simp_all
    moreover have "Suc (n - 1 - iy + iy) = n" using iy by simp
    ultimately have "j \<in> set (cell_marks n ox oy (n - 1 - iy) iy)"
      unfolding mem_cell_marks j using ix by simp
    moreover have "n - 1 - iy < n" using n0 by simp
    ultimately show ?thesis using iy by blast
  qed
  then show "j \<in> set (board_marks n ox oy 0)" by (simp add: mem_board_marks)
qed

subsection \<open>The scan of \<^verbatim>\<open>place\<close> in closed form\<close>

lemma length_placed [simp]: "length (placed n d p) = length d"
  by (simp add: placed_def)

lemma nth_placed:
  assumes "length d = n * n" "p < n * n" "i < n * n"
  shows "placed n d p ! i = (if i = p then QUEEN else if attacks n p i then COVERED else d ! i)"
proof -
  have n0: "0 < n" using assms(2) by (cases n) auto
  have x: "p mod n < n" using n0 by simp
  have y: "p div n < n" using assms(2) by (simp add: less_mult_imp_div_less)
  have e: "p div n * n + p mod n = p" by simp
  show ?thesis
    unfolding placed_def using assms board_marks_attacks[OF x y, of i]
    by (simp add: nth_list_update nth_mark_all e)
qed

lemma place_success:
  assumes n: "n < 2 ^ 32" and w: "width b = n" and l: "length (data b) = n * n" and u: "usepos < n * n"
  shows "(case cover_rows n (width b) (pos2xy n usepos) 0 (data b) of
                None \<Rightarrow> None
              | Some d' \<Rightarrow>
                  (case store d' usepos QUEEN of
                     None \<Rightarrow> None
                   | Some d'' \<Rightarrow> Some (b\<lparr>data := d''\<rparr>, Inr usepos)))
        = Some (b\<lparr>data := placed n (data b) usepos\<rparr>, Inr usepos :: error + nat)"
proof -
  have n0: "0 < n" using u by (cases n) auto
  have x: "usepos mod n < n" using n0 by simp
  have y: "usepos div n < n" using u by (simp add: less_mult_imp_div_less)
  show ?thesis
    unfolding w pos2xy_eq[OF u] cover_rows_eq[OF n x y l]
    using u l by (simp add: store_def placed_def)
qed

lemma place_loop_eq:
  assumes n: "n < 2 ^ 32" and w: "width b = n" and l: "length (data b) = n * n"
  shows "usepos \<le> n * n \<Longrightarrow> freepos \<le> usepos \<Longrightarrow> freepos \<le> t \<Longrightarrow>
    place_loop n b t freepos usepos =
      Some (let fs = filter (\<lambda>i. data b ! i = FREE) [usepos..<n * n] in
            if t - freepos < length fs
            then (b\<lparr>data := placed n (data b) (fs ! (t - freepos))\<rparr>, Inr (fs ! (t - freepos)))
            else (b, Inl NoAvailablePosition))"
proof (induction "n * n - usepos" arbitrary: usepos freepos)
  case 0
  then have "usepos = n * n" by simp
  then show ?case
    by (subst place_loop.simps) (simp add: w umul_small[OF n n])
next
  case (Suc k)
  then have u: "usepos < n * n" by simp
  have m: "umul (width b) (width b) = n * n" by (simp add: w umul_small[OF n n])
  have ld: "load (data b) usepos = Some (data b ! usepos)" using u l by (simp add: load_def)
  have up: "[usepos..<n * n] = usepos # [usepos + 1..<n * n]" using u by (simp add: upt_conv_Cons)
  have k: "k = n * n - (usepos + 1)" using Suc.hyps(2) by simp
  have fp: "uadd freepos (Suc 0) = Suc freepos"
    using Suc.prems(2) u square_less[OF n] by (simp add: uadd_def)
  show ?case
  proof (cases "t = freepos \<and> data b ! usepos = FREE")
    case True
    then show ?thesis
      using u by (subst place_loop.simps) (simp add: m ld up place_success[OF n w l u])
  next
    case False
    show ?thesis
    proof (cases "data b ! usepos = FREE")
      case fr: True
      with False Suc.prems(3) have lt: "Suc freepos \<le> t" by simp
      have ne: "t \<noteq> freepos" using lt by simp
      have step: "place_loop n b t freepos usepos = place_loop n b t (Suc freepos) (usepos + 1)"
        using u fr ne by (subst place_loop.simps) (simp add: m ld fp)
      have fs: "filter (\<lambda>i. data b ! i = FREE) [usepos..<n * n]
          = usepos # filter (\<lambda>i. data b ! i = FREE) [usepos + 1..<n * n]"
        using fr by (simp add: up)
      have ih: "place_loop n b t (Suc freepos) (usepos + 1) =
          Some (let fs = filter (\<lambda>i. data b ! i = FREE) [usepos + 1..<n * n] in
            if t - Suc freepos < length fs
            then (b\<lparr>data := placed n (data b) (fs ! (t - Suc freepos))\<rparr>, Inr (fs ! (t - Suc freepos)))
            else (b, Inl NoAvailablePosition))"
        using u Suc.prems(2) lt by (intro Suc.hyps(1)[OF k]) auto
      have d: "t - freepos = Suc (t - Suc freepos)" using lt by simp
      show ?thesis unfolding step ih fs d by (simp add: Let_def)
    next
      case nf: False
      have step: "place_loop n b t freepos usepos = place_loop n b t freepos (usepos + 1)"
        using u nf by (subst place_loop.simps) (simp add: m ld)
      have fs: "filter (\<lambda>i. data b ! i = FREE) [usepos..<n * n]
          = filter (\<lambda>i. data b ! i = FREE) [usepos + 1..<n * n]"
        using nf by (simp add: up)
      have ih: "place_loop n b t freepos (usepos + 1) =
          Some (let fs = filter (\<lambda>i. data b ! i = FREE) [usepos + 1..<n * n] in
            if t - freepos < length fs
            then (b\<lparr>data := placed n (data b) (fs ! (t - freepos))\<rparr>, Inr (fs ! (t - freepos)))
            else (b, Inl NoAvailablePosition))"
        using u Suc.prems by (intro Suc.hyps(1)[OF k]) auto
      show ?thesis unfolding step ih fs by (rule refl)
    qed
  qed
qed

lemma place_eq:
  assumes n: "n < 2 ^ 32" and w: "width b = n" and l: "length (data b) = n * n"
  shows "place n b t =
      Some (if t < length (free_cells (data b))
            then (b\<lparr>data := placed n (data b) (free_cells (data b) ! t)\<rparr>, Inr (free_cells (data b) ! t))
            else (b, Inl NoAvailablePosition))"
  unfolding place_def free_cells_def l
  using place_loop_eq[OF n w l, of 0 0 t] by (simp add: Let_def)

subsection \<open>Free cells and evaluation on explicit boards\<close>

lemma length_free_cells: "length (free_cells d) = free_count d"
proof -
  have "filter (\<lambda>c. c = FREE) d = filter (\<lambda>c. c = FREE) (map (\<lambda>i. d ! i) [0..<length d])"
    by (simp add: map_nth)
  also have "\<dots> = map (\<lambda>i. d ! i) (filter (\<lambda>i. d ! i = FREE) [0..<length d])"
    by (simp add: filter_map comp_def)
  finally show ?thesis by (simp add: free_cells_def free_count_def)
qed

lemma free_cells_nth:
  "t < length (free_cells d) \<Longrightarrow> free_cells d ! t < length d \<and> d ! (free_cells d ! t) = FREE"
  using nth_mem[of t "free_cells d"] by (simp add: free_cells_def)

lemma list_update_numeral: "(x # xs)[numeral k := y] = x # xs[pred_numeral k := y]"
  by (simp add: numeral_eq_Suc)

lemma replicate_numeral_Cons: "replicate (numeral k) x = x # replicate (pred_numeral k) x"
  by (simp add: numeral_eq_Suc)

lemmas eval_place = replicate_numeral_Cons free_cells_def placed_def board_marks_def row_marks_def cell_marks_def
  mark_all_def list_update_numeral upt_rec

subsection \<open>A placement\<close>

text \<open>
  Claim C6. On every board of \<open>n * n\<close> cells, in whatever state, and for every ordinal,
  \<^verbatim>\<open>place\<close> runs without an index out of range (its result is not \<open>None\<close>). When it places
  a queen at \<open>p\<close>, the cell \<open>p\<close> was free and lies on the board, and the new board differs from
  the old one exactly so: \<open>p\<close> holds the queen, every other cell of the row, the column and
  the two diagonals of \<open>p\<close> is covered, and every other cell is unchanged. The lines are those
  of the coordinates \<open>(i mod n, i div n)\<close>, both below \<open>n\<close>: a diagonal that leaves the board
  does not continue in another row or column. The width is below \<open>2 ^ 32\<close>, so that the
  \<open>n * n\<close> cells are counted by a 64-bit \<^verbatim>\<open>uint\<close>.
\<close>

theorem place_covering_within_board:
  assumes "n < 2 ^ 32" "width b = n" "length (data b) = n * n"
  shows "\<exists>b' r. place n b t = Some (b', r) \<and>
           (\<forall>p. r = Inr p \<longrightarrow>
              p < n * n \<and> data b ! p = FREE \<and> width b' = n \<and> length (data b') = n * n \<and>
              (\<forall>i<n * n. data b' ! i =
                 (if i = p then QUEEN else if attacks n p i then COVERED else data b ! i)))"
proof (cases "t < length (free_cells (data b))")
  case True
  define p where "p = free_cells (data b) ! t"
  have p: "p < n * n" "data b ! p = FREE"
    using free_cells_nth[OF True] assms(3) by (simp_all add: p_def)
  have "place n b t = Some (b\<lparr>data := placed n (data b) p\<rparr>, Inr p)"
    using True by (simp add: place_eq[OF assms] p_def)
  then show ?thesis
    using p assms by (simp add: nth_placed)
next
  case False
  then have "place n b t = Some (b, Inl NoAvailablePosition)"
    by (simp add: place_eq[OF assms])
  then show ?thesis by simp
qed

theorem place_covering_within_board_witness:
  "(4::nat) < 2 ^ 32 \<and> width (NewBoard 4) = 4 \<and> length (data (NewBoard 4)) = 4 * 4 \<and>
   (\<exists>b' r. place 4 (NewBoard 4) 1 = Some (b', r) \<and>
           (\<forall>p. r = Inr p \<longrightarrow>
              p < 4 * 4 \<and> data (NewBoard 4) ! p = FREE \<and> width b' = 4 \<and> length (data b') = 4 * 4 \<and>
              (\<forall>i<4 * 4. data b' ! i =
                 (if i = p then QUEEN else if attacks 4 p i then COVERED else data (NewBoard 4) ! i)))) \<and>
   place 4 (NewBoard 4) 1 = Some (\<lparr>width = 4, data =
        [COVERED, QUEEN, COVERED, COVERED,
         COVERED, COVERED, COVERED, FREE,
         FREE, COVERED, FREE, COVERED,
         FREE, COVERED, FREE, FREE]\<rparr>, Inr 1)"
proof -
  have h: "(4::nat) < 2 ^ 32" "width (NewBoard 4) = 4" "length (data (NewBoard 4)) = 4 * 4"
    by (simp_all add: NewBoard_def umul_def)
  have e: "place 4 (NewBoard 4) 1 = Some (\<lparr>width = 4, data =
        [COVERED, QUEEN, COVERED, COVERED,
         COVERED, COVERED, COVERED, FREE,
         FREE, COVERED, FREE, COVERED,
         FREE, COVERED, FREE, FREE]\<rparr>, Inr 1)"
    by (subst place_eq[of 4]) (simp_all add: NewBoard_def umul_def eval_place)
  show ?thesis
    using h e place_covering_within_board[OF h, of 1] by blast
qed

text \<open>
  Claim C5. \<^verbatim>\<open>place\<close> returns the error exactly when the ordinal is at least the number of
  free cells of the board, and a queen exactly when it is below that number. When it
  fails the board it leaves is the board it was given, and \<^verbatim>\<open>generateBoard\<close> goes on with the
  remaining genes from the same board and the same queen counter.
\<close>

theorem place_unavailable_iff:
  assumes "n < 2 ^ 32" "width b = n" "length (data b) = n * n"
  shows "((\<exists>b' e. place n b t = Some (b', Inl e)) \<longleftrightarrow> free_count (data b) \<le> t) \<and>
         ((\<exists>b' p. place n b t = Some (b', Inr p)) \<longleftrightarrow> t < free_count (data b)) \<and>
         (free_count (data b) \<le> t \<longrightarrow>
            place n b t = Some (b, Inl NoAvailablePosition) \<and>
            generateBoard_loop n (t # rest) b c = generateBoard_loop n rest b c)"
  by (simp add: place_eq[OF assms] length_free_cells)

theorem place_unavailable_iff_witness:
  "(4::nat) < 2 ^ 32 \<and>
   width \<lparr>width = 4, data =
        [COVERED, QUEEN, COVERED, COVERED, COVERED, COVERED, COVERED, FREE,
         FREE, COVERED, FREE, COVERED, FREE, COVERED, FREE, FREE]\<rparr> = 4 \<and>
   length (data \<lparr>width = 4, data =
        [COVERED, QUEEN, COVERED, COVERED, COVERED, COVERED, COVERED, FREE,
         FREE, COVERED, FREE, COVERED, FREE, COVERED, FREE, FREE]\<rparr>) = 4 * 4 \<and>
   free_count (data \<lparr>width = 4, data =
        [COVERED, QUEEN, COVERED, COVERED, COVERED, COVERED, COVERED, FREE,
         FREE, COVERED, FREE, COVERED, FREE, COVERED, FREE, FREE]\<rparr>) = 6 \<and>
   place 4 \<lparr>width = 4, data =
        [COVERED, QUEEN, COVERED, COVERED, COVERED, COVERED, COVERED, FREE,
         FREE, COVERED, FREE, COVERED, FREE, COVERED, FREE, FREE]\<rparr> 6 =
     Some (\<lparr>width = 4, data =
        [COVERED, QUEEN, COVERED, COVERED, COVERED, COVERED, COVERED, FREE,
         FREE, COVERED, FREE, COVERED, FREE, COVERED, FREE, FREE]\<rparr>, Inl NoAvailablePosition) \<and>
   generateBoard_loop 4 [6, 0] \<lparr>width = 4, data =
        [COVERED, QUEEN, COVERED, COVERED, COVERED, COVERED, COVERED, FREE,
         FREE, COVERED, FREE, COVERED, FREE, COVERED, FREE, FREE]\<rparr> 1 =
     generateBoard_loop 4 [0] \<lparr>width = 4, data =
        [COVERED, QUEEN, COVERED, COVERED, COVERED, COVERED, COVERED, FREE,
         FREE, COVERED, FREE, COVERED, FREE, COVERED, FREE, FREE]\<rparr> 1 \<and>
   (\<exists>b' p. place 4 \<lparr>width = 4, data =
        [COVERED, QUEEN, COVERED, COVERED, COVERED, COVERED, COVERED, FREE,
         FREE, COVERED, FREE, COVERED, FREE, COVERED, FREE, FREE]\<rparr> 5 = Some (b', Inr p)) \<and>
   generateBoard_loop 4 [6, 0] \<lparr>width = 4, data =
        [COVERED, QUEEN, COVERED, COVERED, COVERED, COVERED, COVERED, FREE,
         FREE, COVERED, FREE, COVERED, FREE, COVERED, FREE, FREE]\<rparr> 1 =
     Some (\<lparr>width = 4, data =
        [COVERED, QUEEN, COVERED, COVERED, COVERED, COVERED, COVERED, QUEEN,
         FREE, COVERED, COVERED, COVERED, FREE, COVERED, FREE, COVERED]\<rparr>, 2)"
proof -
  let ?b = "\<lparr>width = 4, data =
        [COVERED, QUEEN, COVERED, COVERED, COVERED, COVERED, COVERED, FREE,
         FREE, COVERED, FREE, COVERED, FREE, COVERED, FREE, FREE]\<rparr>"
  have h: "(4::nat) < 2 ^ 32" "width ?b = 4" "length (data ?b) = 4 * 4"
    by simp_all
  have f: "free_count (data ?b) = 6" by (simp add: free_count_def)
  have g: "generateBoard_loop 4 [0] ?b 1 =
     Some (\<lparr>width = 4, data =
        [COVERED, QUEEN, COVERED, COVERED, COVERED, COVERED, COVERED, QUEEN,
         FREE, COVERED, COVERED, COVERED, FREE, COVERED, FREE, COVERED]\<rparr>, 2)"
    by (simp add: uadd_def place_eq[of 4] eval_place)
  show ?thesis
    using h f g place_unavailable_iff[OF h, of 6 "[0]" 1] place_unavailable_iff[OF h, of 5 "[]" 0]
    by simp
qed

subsection \<open>The invariant of decoding\<close>

lemma attacks_sym: "attacks n p i = attacks n i p"
  by (auto simp: attacks_def)

lemma board_ok_NewBoard: "n < 2 ^ 32 \<Longrightarrow> board_ok n (NewBoard n)"
  by (simp add: board_ok_def NewBoard_def umul_small)

lemma length_queen_cells_le: "length (queen_cells d) \<le> length d"
  unfolding queen_cells_def using length_filter_le[of _ "[0..<length d]"] by simp

lemma queen_cells_NewBoard: "queen_cells (data (NewBoard n)) = []"
  by (simp add: queen_cells_def NewBoard_def)

lemma filter_insert_one:
  "distinct xs \<Longrightarrow> p \<in> set xs \<Longrightarrow> \<not> Q p \<Longrightarrow>
     length (filter (\<lambda>i. i = p \<or> Q i) xs) = Suc (length (filter Q xs))"
proof (induction xs)
  case Nil
  then show ?case by simp
next
  case (Cons x xs)
  show ?case
  proof (cases "x = p")
    case True
    then have "p \<notin> set xs" using Cons.prems(1) by simp
    then have "filter (\<lambda>i. i = p \<or> Q i) xs = filter Q xs"
      by (intro filter_cong) auto
    then show ?thesis using True Cons.prems(3) by simp
  next
    case False
    then show ?thesis using Cons by auto
  qed
qed

text \<open>What a placement on a board that satisfies the invariant keeps.\<close>

lemma placed_keeps:
  assumes ok: "board_ok n b" and p: "p < n * n" "data b ! p = FREE" and i: "i < n * n"
  shows "data b ! i = QUEEN \<Longrightarrow> placed n (data b) p ! i = QUEEN"
    and "data b ! i = COVERED \<Longrightarrow> placed n (data b) p ! i = COVERED"
    and "placed n (data b) p ! i = QUEEN \<longleftrightarrow> i = p \<or> data b ! i = QUEEN"
proof -
  have l: "length (data b) = n * n" using ok by (simp add: board_ok_def)
  have cov: "\<And>q j. q < n * n \<Longrightarrow> j < n * n \<Longrightarrow> data b ! q = QUEEN \<Longrightarrow> j \<noteq> q \<Longrightarrow> attacks n q j
      \<Longrightarrow> data b ! j = COVERED"
    using ok unfolding board_ok_def by blast
  have na: "\<not> attacks n p i" if q: "data b ! i = QUEEN"
  proof
    assume "attacks n p i"
    then have "attacks n i p" by (simp add: attacks_sym)
    moreover have "p \<noteq> i" using q p(2) by auto
    ultimately have "data b ! p = COVERED" using cov[OF i p(1) q] by simp
    then show False using p(2) by simp
  qed
  show "data b ! i = QUEEN \<Longrightarrow> placed n (data b) p ! i = QUEEN"
    using na p(2) by (auto simp: nth_placed[OF l p(1) i])
  show "data b ! i = COVERED \<Longrightarrow> placed n (data b) p ! i = COVERED"
    using p(2) by (auto simp: nth_placed[OF l p(1) i])
  show "placed n (data b) p ! i = QUEEN \<longleftrightarrow> i = p \<or> data b ! i = QUEEN"
    using na by (auto simp: nth_placed[OF l p(1) i])
qed

lemma placed_ok:
  assumes ok: "board_ok n b" and p: "p < n * n" "data b ! p = FREE"
  shows "board_ok n (b\<lparr>data := placed n (data b) p\<rparr>)"
proof -
  have l: "length (data b) = n * n" and w: "width b = n" using ok by (simp_all add: board_ok_def)
  have cov: "\<And>q j. q < n * n \<Longrightarrow> j < n * n \<Longrightarrow> data b ! q = QUEEN \<Longrightarrow> j \<noteq> q \<Longrightarrow> attacks n q j
      \<Longrightarrow> data b ! j = COVERED"
    using ok unfolding board_ok_def by blast
  have c: "placed n (data b) p ! j = COVERED"
    if q: "q < n * n" "placed n (data b) p ! q = QUEEN" and j: "j < n * n" "j \<noteq> q" "attacks n q j"
    for q j
  proof (cases "q = p")
    case True
    have "j \<noteq> p" "attacks n p j" using j True by simp_all
    then show ?thesis unfolding nth_placed[OF l p(1) j(1)] by simp
  next
    case False
    then have oq: "data b ! q = QUEEN"
      using q placed_keeps(3)[OF ok p q(1)] by simp
    have "data b ! j = COVERED" using cov[OF q(1) j(1) oq j(2,3)] .
    then show ?thesis by (rule placed_keeps(2)[OF ok p j(1)])
  qed
  have c2: "\<forall>q<n * n. \<forall>j<n * n. placed n (data b) p ! q = QUEEN \<and> j \<noteq> q \<and> attacks n q j
      \<longrightarrow> placed n (data b) p ! j = COVERED"
    using c by blast
  have d: "data (b\<lparr>data := placed n (data b) p\<rparr>) = placed n (data b) p"
    and w': "width (b\<lparr>data := placed n (data b) p\<rparr>) = n"
    using w by simp_all
  show ?thesis
    unfolding board_ok_def d w'
  proof (intro conjI)
    show "n = n" ..
    show "length (placed n (data b) p) = n * n" using l by simp
    show "\<forall>q<n * n. \<forall>j<n * n. placed n (data b) p ! q = QUEEN \<and> j \<noteq> q \<and> attacks n q j
      \<longrightarrow> placed n (data b) p ! j = COVERED" by (rule c2)
  qed
qed

lemma placed_queen_count:
  assumes ok: "board_ok n b" and p: "p < n * n" "data b ! p = FREE"
  shows "length (queen_cells (placed n (data b) p)) = Suc (length (queen_cells (data b)))"
proof -
  have l: "length (data b) = n * n" using ok by (simp add: board_ok_def)
  have "filter (\<lambda>i. placed n (data b) p ! i = QUEEN) [0..<n * n]
      = filter (\<lambda>i. i = p \<or> data b ! i = QUEEN) [0..<n * n]"
    by (intro filter_cong refl) (simp add: placed_keeps(3)[OF ok p])
  moreover have "length (filter (\<lambda>i. i = p \<or> data b ! i = QUEEN) [0..<n * n])
      = Suc (length (filter (\<lambda>i. data b ! i = QUEEN) [0..<n * n]))"
    using p by (intro filter_insert_one) auto
  ultimately show ?thesis by (simp add: queen_cells_def l)
qed

text \<open>The step of \<^verbatim>\<open>generateBoard\<close> on a board that satisfies the invariant.\<close>

lemma place_step:
  assumes n: "n < 2 ^ 32" and ok: "board_ok n b"
  shows "\<exists>b' r. place n b t = Some (b', r) \<and> board_ok n b' \<and>
     (\<forall>i<n * n. data b ! i = QUEEN \<longrightarrow> data b' ! i = QUEEN) \<and>
     (\<forall>i<n * n. data b ! i = COVERED \<longrightarrow> data b' ! i = COVERED) \<and>
     (case r of
        Inl e \<Rightarrow> b' = b
      | Inr p \<Rightarrow> p < n * n \<and> data b ! p = FREE \<and> data b' ! p = QUEEN \<and>
          length (queen_cells (data b')) = Suc (length (queen_cells (data b))))"
proof -
  have l: "length (data b) = n * n" and w: "width b = n" using ok by (simp_all add: board_ok_def)
  show ?thesis
  proof (cases "t < length (free_cells (data b))")
    case True
    define p where "p = free_cells (data b) ! t"
    have p: "p < n * n" "data b ! p = FREE"
      using free_cells_nth[OF True] l by (simp_all add: p_def)
    have e: "place n b t = Some (b\<lparr>data := placed n (data b) p\<rparr>, Inr p)"
      using True by (simp add: place_eq[OF n w l] p_def)
    define b' where "b' = b\<lparr>data := placed n (data b) p\<rparr>"
    have d: "data b' = placed n (data b) p" by (simp add: b'_def)
    have ok': "board_ok n b'" unfolding b'_def by (rule placed_ok[OF ok p])
    have k1: "\<forall>i<n * n. data b ! i = QUEEN \<longrightarrow> data b' ! i = QUEEN"
      unfolding d using placed_keeps(1)[OF ok p] by blast
    have k2: "\<forall>i<n * n. data b ! i = COVERED \<longrightarrow> data b' ! i = COVERED"
      unfolding d using placed_keeps(2)[OF ok p] by blast
    have k3: "data b' ! p = QUEEN"
      unfolding d using placed_keeps(3)[OF ok p p(1)] by simp
    have k4: "length (queen_cells (data b')) = Suc (length (queen_cells (data b)))"
      unfolding d by (rule placed_queen_count[OF ok p])
    have k5: "case (Inr p :: error + nat) of
        Inl e \<Rightarrow> b' = b
      | Inr p \<Rightarrow> p < n * n \<and> data b ! p = FREE \<and> data b' ! p = QUEEN \<and>
          length (queen_cells (data b')) = Suc (length (queen_cells (data b)))"
      using p k3 k4 by simp
    show ?thesis
      using e[folded b'_def] ok' k1 k2 k5 by blast
  next
    case False
    then have "place n b t = Some (b, Inl NoAvailablePosition)"
      by (simp add: place_eq[OF n w l])
    then show ?thesis using ok by auto
  qed
qed

lemma generateBoard_loop_inv:
  assumes n: "n < 2 ^ 32"
  shows "board_ok n b \<Longrightarrow> c = length (queen_cells (data b)) \<Longrightarrow>
     \<exists>b' c'. generateBoard_loop n g b c = Some (b', c') \<and> board_ok n b' \<and>
       c' = length (queen_cells (data b')) \<and> c' \<le> c + length g \<and>
       (\<forall>i<n * n. data b ! i = QUEEN \<longrightarrow> data b' ! i = QUEEN) \<and>
       (\<forall>i<n * n. data b ! i = COVERED \<longrightarrow> data b' ! i = COVERED)"
proof (induction g arbitrary: b c)
  case Nil
  then show ?case by simp
next
  case (Cons t g)
  obtain b1 r where s: "place n b t = Some (b1, r)" "board_ok n b1"
      "\<forall>i<n * n. data b ! i = QUEEN \<longrightarrow> data b1 ! i = QUEEN"
      "\<forall>i<n * n. data b ! i = COVERED \<longrightarrow> data b1 ! i = COVERED"
      "case r of Inl e \<Rightarrow> b1 = b
        | Inr p \<Rightarrow> p < n * n \<and> data b ! p = FREE \<and> data b1 ! p = QUEEN \<and>
          length (queen_cells (data b1)) = Suc (length (queen_cells (data b)))"
    using place_step[OF n Cons.prems(1), of t] by blast
  show ?case
  proof (cases r)
    case (Inl e)
    then have b1: "b1 = b" using s(5) by simp
    have "generateBoard_loop n (t # g) b c = generateBoard_loop n g b c"
      using s(1) Inl b1 by simp
    moreover have "length g \<le> length (t # g)" by simp
    ultimately show ?thesis
      using Cons.IH[OF Cons.prems] by (metis add_Suc_right le_SucI length_Cons)
  next
    case (Inr p)
    then have q: "length (queen_cells (data b1)) = Suc c" using s(5) Cons.prems(2) by simp
    have "Suc c \<le> length (data b1)" using length_queen_cells_le[of "data b1"] q by simp
    then have "Suc c < 2 ^ 64"
      using s(2) square_less[OF n] by (simp add: board_ok_def)
    then have u: "uadd c 1 = Suc c" by (simp add: uadd_def)
    obtain b' c' where r: "generateBoard_loop n g b1 (Suc c) = Some (b', c')" "board_ok n b'"
        "c' = length (queen_cells (data b'))" "c' \<le> Suc c + length g"
        "\<forall>i<n * n. data b1 ! i = QUEEN \<longrightarrow> data b' ! i = QUEEN"
        "\<forall>i<n * n. data b1 ! i = COVERED \<longrightarrow> data b' ! i = COVERED"
      using Cons.IH[OF s(2) q[symmetric]] by blast
    have st: "generateBoard_loop n (t # g) b c = Some (b', c')"
      using s(1) Inr u r(1) by simp
    have le: "c' \<le> c + length (t # g)" using r(4) by simp
    have kq: "\<forall>i<n * n. data b ! i = QUEEN \<longrightarrow> data b' ! i = QUEEN"
      using s(3) r(5) by blast
    have kc: "\<forall>i<n * n. data b ! i = COVERED \<longrightarrow> data b' ! i = COVERED"
      using s(4) r(6) by blast
    show ?thesis
      using st r(2,3) le kq kc by blast
  qed
qed

lemma board_ok_non_attacking:
  assumes "board_ok n b"
  shows "non_attacking n (queen_cells (data b))"
  unfolding non_attacking_def
proof (intro ballI impI notI)
  fix p i
  assume p: "p \<in> set (queen_cells (data b))" and i: "i \<in> set (queen_cells (data b))"
    and ne: "p \<noteq> i" and a: "attacks n p i"
  have l: "length (data b) = n * n" using assms by (simp add: board_ok_def)
  have "p < n * n" "data b ! p = QUEEN" "i < n * n" "data b ! i = QUEEN"
    using p i l by (simp_all add: queen_cells_def)
  moreover from this have "data b ! i = COVERED"
    using assms ne a unfolding board_ok_def by blast
  ultimately show False by simp
qed


lemma generateBoard_loop_append:
  "generateBoard_loop n (xs @ ys) b c =
     (case generateBoard_loop n xs b c of
        None \<Rightarrow> None
      | Some (b', c') \<Rightarrow> generateBoard_loop n ys b' c')"
  by (induction xs arbitrary: b c) (auto split: option.splits sum.splits)

text \<open>Decoding from the empty board never panics, on the board of the source too.\<close>

lemma generateBoard_total:
  assumes n: "n < 2 ^ 32"
  shows "\<exists>b c. generateBoard n g = Some (b, c) \<and> board_ok n b \<and>
           c = length (queen_cells (data b)) \<and> c \<le> length g"
  using generateBoard_loop_inv[OF n board_ok_NewBoard[OF n], of 0 g]
  unfolding generateBoard_def by (auto simp: queen_cells_NewBoard)

lemma generateBoard_source_total:
  "\<exists>b c. generateBoard BOARDSIZE g = Some (b, c) \<and> board_ok BOARDSIZE b \<and>
         c = length (queen_cells (data b)) \<and> c \<le> length g"
  by (rule generateBoard_total[OF source_constants(1)])

text \<open>Three genomes decoded on the board of width 4.\<close>

lemma decode_1000:
  "generateBoard 4 [1, 0, 0, 0] = Some (\<lparr>width = 4, data =
        [COVERED, QUEEN, COVERED, COVERED,
         COVERED, COVERED, COVERED, QUEEN,
         QUEEN, COVERED, COVERED, COVERED,
         COVERED, COVERED, QUEEN, COVERED]\<rparr>, 4)"
  by (simp add: generateBoard_def NewBoard_def umul_def uadd_def place_eq[of 4] eval_place)

lemma decode_0000:
  "generateBoard 4 [0, 0, 0, 0] = Some (\<lparr>width = 4, data =
        [QUEEN, COVERED, COVERED, COVERED,
         COVERED, COVERED, QUEEN, COVERED,
         COVERED, COVERED, COVERED, COVERED,
         COVERED, QUEEN, COVERED, COVERED]\<rparr>, 3)"
  by (simp add: generateBoard_def NewBoard_def umul_def uadd_def place_eq[of 4] eval_place)

lemma decode_15:
  "generateBoard 4 [15, 15, 15, 15] = Some (\<lparr>width = 4, data =
        [COVERED, FREE, FREE, COVERED,
         FREE, COVERED, FREE, COVERED,
         FREE, FREE, COVERED, COVERED,
         COVERED, COVERED, COVERED, QUEEN]\<rparr>, 1)"
  by (simp add: generateBoard_def NewBoard_def umul_def uadd_def place_eq[of 4] eval_place)

lemma decode_2222:
  "generateBoard 4 [2, 2, 2, 2] = Some (\<lparr>width = 4, data =
        [COVERED, COVERED, QUEEN, COVERED,
         FREE, COVERED, COVERED, COVERED,
         COVERED, COVERED, COVERED, QUEEN,
         COVERED, QUEEN, COVERED, COVERED]\<rparr>, 3)"
  by (simp add: generateBoard_def NewBoard_def umul_def uadd_def place_eq[of 4] eval_place)

subsection \<open>Decoding a genome\<close>

text \<open>
  Claim C4. Take any genome \<open>pre @ g # post\<close> and decode it from the empty board; nothing
  panics on the way. When the gene \<open>g\<close> places a queen at \<open>p\<close>, the cell \<open>p\<close> was free on the
  board the genes before it had left: it held no queen and it was not covered. Every cell
  that held a queen or was covered before the placement holds the same after it, and
  again after the remaining genes of the genome; the queen at \<open>p\<close> is among them. So no
  cell is made a queen twice, no queen is overwritten by the covering of a placement,
  and no covered cell becomes a target.
\<close>

theorem decode_marks_once:
  assumes "n < 2 ^ 32"
  shows "\<exists>b c. generateBoard_loop n pre (NewBoard n) 0 = Some (b, c) \<and>
          (\<exists>b1 r. place n b g = Some (b1, r) \<and>
             (\<forall>p. r = Inr p \<longrightarrow>
                data b ! p = FREE \<and> data b1 ! p = QUEEN \<and>
                (\<forall>i<n * n. data b ! i = QUEEN \<longrightarrow> data b1 ! i = QUEEN) \<and>
                (\<forall>i<n * n. data b ! i = COVERED \<longrightarrow> data b1 ! i = COVERED) \<and>
                (\<exists>b2 c2. generateBoard_loop n post b1 (uadd c 1) = Some (b2, c2) \<and>
                   generateBoard n (pre @ g # post) = Some (b2, c2) \<and>
                   data b2 ! p = QUEEN \<and>
                   (\<forall>i<n * n. data b1 ! i = QUEEN \<longrightarrow> data b2 ! i = QUEEN) \<and>
                   (\<forall>i<n * n. data b1 ! i = COVERED \<longrightarrow> data b2 ! i = COVERED))))"
proof -
  note n = assms
  obtain b c where pre: "generateBoard_loop n pre (NewBoard n) 0 = Some (b, c)" "board_ok n b"
      "c = length (queen_cells (data b))"
    using generateBoard_loop_inv[OF n board_ok_NewBoard[OF n], of 0 pre]
    by (auto simp: queen_cells_NewBoard)
  obtain b1 r where s: "place n b g = Some (b1, r)" "board_ok n b1"
      "\<forall>i<n * n. data b ! i = QUEEN \<longrightarrow> data b1 ! i = QUEEN"
      "\<forall>i<n * n. data b ! i = COVERED \<longrightarrow> data b1 ! i = COVERED"
      "case r of Inl e \<Rightarrow> b1 = b
        | Inr p \<Rightarrow> p < n * n \<and> data b ! p = FREE \<and> data b1 ! p = QUEEN \<and>
          length (queen_cells (data b1)) = Suc (length (queen_cells (data b)))"
    using place_step[OF n pre(2), of g] by blast
  have after: "data b ! p = FREE \<and> data b1 ! p = QUEEN \<and>
                (\<forall>i<n * n. data b ! i = QUEEN \<longrightarrow> data b1 ! i = QUEEN) \<and>
                (\<forall>i<n * n. data b ! i = COVERED \<longrightarrow> data b1 ! i = COVERED) \<and>
                (\<exists>b2 c2. generateBoard_loop n post b1 (uadd c 1) = Some (b2, c2) \<and>
                   generateBoard n (pre @ g # post) = Some (b2, c2) \<and>
                   data b2 ! p = QUEEN \<and>
                   (\<forall>i<n * n. data b1 ! i = QUEEN \<longrightarrow> data b2 ! i = QUEEN) \<and>
                   (\<forall>i<n * n. data b1 ! i = COVERED \<longrightarrow> data b2 ! i = COVERED))"
    if r: "r = Inr p" for p
  proof -
    have p: "p < n * n" "data b ! p = FREE" "data b1 ! p = QUEEN"
      and q: "length (queen_cells (data b1)) = Suc c"
      using s(5) r pre(3) by simp_all
    have "Suc c \<le> length (data b1)" using length_queen_cells_le[of "data b1"] q by simp
    then have "Suc c < 2 ^ 64"
      using s(2) square_less[OF n] by (simp add: board_ok_def)
    then have u: "uadd c 1 = Suc c" by (simp add: uadd_def)
    obtain b2 c2 where post: "generateBoard_loop n post b1 (Suc c) = Some (b2, c2)"
        "\<forall>i<n * n. data b1 ! i = QUEEN \<longrightarrow> data b2 ! i = QUEEN"
        "\<forall>i<n * n. data b1 ! i = COVERED \<longrightarrow> data b2 ! i = COVERED"
      using generateBoard_loop_inv[OF n s(2) q[symmetric], of post] by blast
    have whole: "generateBoard n (pre @ g # post) = Some (b2, c2)"
      unfolding generateBoard_def generateBoard_loop_append pre(1)
      using s(1) r u post(1) by simp
    have "data b2 ! p = QUEEN" using post(2) p(1,3) by blast
    then show ?thesis
      using p s(3,4) post whole u by auto
  qed
  show ?thesis
    using pre(1) s(1) after by blast
qed

theorem decode_marks_once_witness:
  "(4::nat) < 2 ^ 32 \<and>
   (\<exists>b c. generateBoard_loop 4 [1] (NewBoard 4) 0 = Some (b, c) \<and>
          (\<exists>b1 r. place 4 b 0 = Some (b1, r) \<and>
             (\<forall>p. r = Inr p \<longrightarrow>
                data b ! p = FREE \<and> data b1 ! p = QUEEN \<and>
                (\<forall>i<4 * 4. data b ! i = QUEEN \<longrightarrow> data b1 ! i = QUEEN) \<and>
                (\<forall>i<4 * 4. data b ! i = COVERED \<longrightarrow> data b1 ! i = COVERED) \<and>
                (\<exists>b2 c2. generateBoard_loop 4 [0, 0] b1 (uadd c 1) = Some (b2, c2) \<and>
                   generateBoard 4 ([1] @ 0 # [0, 0]) = Some (b2, c2) \<and>
                   data b2 ! p = QUEEN \<and>
                   (\<forall>i<4 * 4. data b1 ! i = QUEEN \<longrightarrow> data b2 ! i = QUEEN) \<and>
                   (\<forall>i<4 * 4. data b1 ! i = COVERED \<longrightarrow> data b2 ! i = COVERED))))) \<and>
   generateBoard_loop 4 [1] (NewBoard 4) 0 = Some (\<lparr>width = 4, data =
        [COVERED, QUEEN, COVERED, COVERED,
         COVERED, COVERED, COVERED, FREE,
         FREE, COVERED, FREE, COVERED,
         FREE, COVERED, FREE, FREE]\<rparr>, 1) \<and>
   place 4 \<lparr>width = 4, data =
        [COVERED, QUEEN, COVERED, COVERED,
         COVERED, COVERED, COVERED, FREE,
         FREE, COVERED, FREE, COVERED,
         FREE, COVERED, FREE, FREE]\<rparr> 0 = Some (\<lparr>width = 4, data =
        [COVERED, QUEEN, COVERED, COVERED,
         COVERED, COVERED, COVERED, QUEEN,
         FREE, COVERED, COVERED, COVERED,
         FREE, COVERED, FREE, COVERED]\<rparr>, Inr 7)"
proof -
  have h: "(4::nat) < 2 ^ 32" by simp
  have e1: "generateBoard_loop 4 [1] (NewBoard 4) 0 = Some (\<lparr>width = 4, data =
        [COVERED, QUEEN, COVERED, COVERED,
         COVERED, COVERED, COVERED, FREE,
         FREE, COVERED, FREE, COVERED,
         FREE, COVERED, FREE, FREE]\<rparr>, 1)"
    by (simp add: NewBoard_def umul_def uadd_def place_eq[of 4] eval_place)
  have e2: "place 4 \<lparr>width = 4, data =
        [COVERED, QUEEN, COVERED, COVERED,
         COVERED, COVERED, COVERED, FREE,
         FREE, COVERED, FREE, COVERED,
         FREE, COVERED, FREE, FREE]\<rparr> 0 = Some (\<lparr>width = 4, data =
        [COVERED, QUEEN, COVERED, COVERED,
         COVERED, COVERED, COVERED, QUEEN,
         FREE, COVERED, COVERED, COVERED,
         FREE, COVERED, FREE, COVERED]\<rparr>, Inr 7)"
    by (simp add: place_eq[of 4] eval_place)
  show ?thesis
    using h e1 e2 decode_marks_once[OF h, of "[1]" 0 "[0, 0]"] by blast
qed

text \<open>
  Claim C2. The fitness of a genome is 1 exactly when the board it decodes to holds \<open>q\<close>
  queens no two of which share a row, a column or a diagonal. The quotient of the two
  \<^verbatim>\<open>float64\<close> values is the real quotient here; both are integers far below \<open>2 ^ 53\<close>, and
  the rounded quotient of the source is 1 exactly when the real one is. The theorem holds
  for every genome, whatever its length and its genes.
\<close>

theorem fitness_one_iff_solution:
  assumes "n < 2 ^ 32" "0 < q"
  shows "fitness n q g = Some 1 \<longleftrightarrow>
     (\<exists>b c. generateBoard n g = Some (b, c) \<and> length (queen_cells (data b)) = q \<and>
            non_attacking n (queen_cells (data b)))"
proof -
  obtain b c where g: "generateBoard n g = Some (b, c)" "board_ok n b"
      "c = length (queen_cells (data b))"
    using generateBoard_total[OF assms(1), of g] by blast
  have f: "fitness n q g = Some (real c / real q)"
    by (simp add: fitness_def g(1))
  have "real c / real q = 1 \<longleftrightarrow> c = q" using assms(2) by auto
  then show ?thesis
    using f g board_ok_non_attacking[OF g(2)] by auto
qed

theorem fitness_one_iff_solution_witness:
  "(4::nat) < 2 ^ 32 \<and> (0::nat) < 4 \<and>
   fitness 4 4 [1, 0, 0, 0] = Some 1 \<and>
   (\<exists>b c. generateBoard 4 [1, 0, 0, 0] = Some (b, c) \<and> length (queen_cells (data b)) = 4 \<and>
          non_attacking 4 (queen_cells (data b))) \<and>
   fitness 4 4 [0, 0, 0, 0] = Some (3 / 4) \<and>
   \<not> (\<exists>b c. generateBoard 4 [0, 0, 0, 0] = Some (b, c) \<and> length (queen_cells (data b)) = 4 \<and>
          non_attacking 4 (queen_cells (data b)))"
proof -
  have h: "(4::nat) < 2 ^ 32" "(0::nat) < 4" by simp_all
  have f1: "fitness 4 4 [1, 0, 0, 0] = Some 1"
    unfolding fitness_def decode_1000 by simp
  have f0: "fitness 4 4 [0, 0, 0, 0] = Some (3 / 4)"
    unfolding fitness_def decode_0000 by simp
  show ?thesis
    using h f1 f0 fitness_one_iff_solution[OF h, of "[1, 0, 0, 0]"]
      fitness_one_iff_solution[OF h, of "[0, 0, 0, 0]"]
    by simp
qed

text \<open>
  Claim C7. For a genome of length \<open>q\<close> the decoding does not panic, the queen counter \<open>c\<close>
  it returns is the number of queens on the board and at most \<open>q\<close>, and the fitness is
  \<open>c / q\<close>, a value between 0 and 1.
\<close>

theorem fitness_range:
  assumes "n < 2 ^ 32" "0 < q" "length g = q"
  shows "\<exists>b c. generateBoard n g = Some (b, c) \<and> c = length (queen_cells (data b)) \<and> c \<le> q \<and>
           fitness n q g = Some (real c / real q) \<and>
           0 \<le> real c / real q \<and> real c / real q \<le> 1"
proof -
  obtain b c where g: "generateBoard n g = Some (b, c)"
      "c = length (queen_cells (data b))" "c \<le> length g"
    using generateBoard_total[OF assms(1), of g] by blast
  have f: "fitness n q g = Some (real c / real q)"
    by (simp add: fitness_def g(1))
  have "real c / real q \<le> 1" using g(3) assms(2,3) by simp
  then show ?thesis
    using f g assms(3) by auto
qed

theorem fitness_range_witness:
  "(4::nat) < 2 ^ 32 \<and> (0::nat) < 4 \<and> length [0, 0, 0, 0 :: nat] = 4 \<and>
   (\<exists>b c. generateBoard 4 [0, 0, 0, 0] = Some (b, c) \<and> c = length (queen_cells (data b)) \<and>
          c \<le> 4 \<and> fitness 4 4 [0, 0, 0, 0] = Some (real c / real 4) \<and>
          0 \<le> real c / real 4 \<and> real c / real 4 \<le> 1) \<and>
   fitness 4 4 [0, 0, 0, 0] = Some (3 / 4)"
proof -
  have h: "(4::nat) < 2 ^ 32" "(0::nat) < 4" "length [0, 0, 0, 0 :: nat] = 4" by simp_all
  have f0: "fitness 4 4 [0, 0, 0, 0] = Some (3 / 4)"
    unfolding fitness_def decode_0000 by simp
  show ?thesis
    using h f0 fitness_range[OF h] by blast
qed

subsection \<open>Decoding on a heap\<close>

lemma generateBoard_h_loop_eq:
  "a < length h \<Longrightarrow>
     generateBoard_h_loop bs sol a c h =
       (case generateBoard_loop bs sol (h ! a) c of
          None \<Rightarrow> None
        | Some (b', c') \<Rightarrow> Some (a, c', h[a := b']))"
proof (induction sol arbitrary: c h)
  case Nil
  then show ?case by simp
next
  case (Cons t sol)
  show ?case
  proof (cases "place bs (h ! a) t")
    case None
    then show ?thesis using Cons.prems by (simp add: place_h_def load_def)
  next
    case (Some br)
    obtain b1 r where br: "br = (b1, r)" by (cases br)
    have ph: "place_h bs a t h = Some (r, h[a := b1])"
      using Cons.prems Some br by (simp add: place_h_def load_def)
    have l: "a < length (h[a := b1])" using Cons.prems by simp
    have n: "(h[a := b1]) ! a = b1" using Cons.prems by simp
    show ?thesis
      using Some br ph Cons.IH[OF l] n by (cases r) (simp_all split: option.splits)
  qed
qed

lemma generateBoard_h_eq:
  "generateBoard_h bs sol h =
     (case generateBoard bs sol of
        None \<Rightarrow> None
      | Some (b, c) \<Rightarrow> Some (length h, c, h @ [b]))"
  unfolding generateBoard_h_def NewBoard_h_def generateBoard_def
  by (simp add: generateBoard_h_loop_eq nth_append split: option.splits)

lemma decode_all_eq:
  assumes n: "bs < 2 ^ 32"
  shows "\<exists>rs h'. decode_all bs nq sols h = Some (rs, h') \<and> length rs = length sols \<and>
           take (length h) h' = h \<and>
           (\<forall>i<length sols. \<exists>b c. generateBoard bs (sols ! i) = Some (b, c) \<and>
               rs ! i = (b, c, real c / real nq))"
proof (induction sols arbitrary: h)
  case Nil
  then show ?case by simp
next
  case (Cons sol sols)
  obtain b c where g: "generateBoard bs sol = Some (b, c)"
    using generateBoard_total[OF n, of sol] by blast
  have gh: "generateBoard_h bs sol h = Some (length h, c, h @ [b])"
    by (simp add: generateBoard_h_eq g)
  have ld: "load (h @ [b]) (length h) = Some b" by (simp add: load_def)
  obtain rs h' where r: "decode_all bs nq sols (h @ [b]) = Some (rs, h')"
      "length rs = length sols" "take (length (h @ [b])) h' = h @ [b]"
      "\<forall>i<length sols. \<exists>b c. generateBoard bs (sols ! i) = Some (b, c) \<and>
               rs ! i = (b, c, real c / real nq)"
    using Cons.IH[of "h @ [b]"] by blast
  have d: "decode_all bs nq (sol # sols) h = Some ((b, c, real c / real nq) # rs, h')"
    by (simp add: gh ld r(1))
  have t: "take (length h) h' = h"
  proof -
    have "take (length h) (take (length (h @ [b])) h') = take (length h) (h @ [b])"
      by (simp only: r(3))
    then show ?thesis by (simp add: min_def)
  qed
  have a: "\<forall>i<length (sol # sols). \<exists>b' c'. generateBoard bs ((sol # sols) ! i) = Some (b', c') \<and>
               ((b, c, real c / real nq) # rs) ! i = (b', c', real c' / real nq)"
  proof (intro allI impI)
    fix i assume "i < length (sol # sols)"
    then show "\<exists>b' c'. generateBoard bs ((sol # sols) ! i) = Some (b', c') \<and>
               ((b, c, real c / real nq) # rs) ! i = (b', c', real c' / real nq)"
      using g r(4) by (cases i) auto
  qed
  show ?case
    using d r(2) t a by auto
qed

text \<open>
  Claim C8. Run any sequence of decodes one after the other on a heap that holds
  whatever boards earlier work has left. Every decode returns; the board, the queen
  counter and the fitness of each are those of \<^verbatim>\<open>generateBoard\<close> and \<^verbatim>\<open>fitness\<close> applied to its
  genome alone, so two decodes of the same genome give the same board and the same
  fitness wherever they stand in the sequence; and the boards that were on the heap
  before are unchanged, each decode working on a board of its own.
\<close>

theorem decode_deterministic:
  assumes "bs < 2 ^ 32"
  shows "\<exists>rs h'. decode_all bs nq sols h = Some (rs, h') \<and> length rs = length sols \<and>
           take (length h) h' = h \<and>
           (\<forall>i<length sols. \<forall>j<length sols. sols ! i = sols ! j \<longrightarrow> rs ! i = rs ! j) \<and>
           (\<forall>i<length sols. \<exists>b c. generateBoard bs (sols ! i) = Some (b, c) \<and>
               rs ! i = (b, c, real c / real nq) \<and>
               fitness bs nq (sols ! i) = Some (real c / real nq))"
proof -
  obtain rs h' where r: "decode_all bs nq sols h = Some (rs, h')" "length rs = length sols"
      "take (length h) h' = h"
      "\<forall>i<length sols. \<exists>b c. generateBoard bs (sols ! i) = Some (b, c) \<and>
               rs ! i = (b, c, real c / real nq)"
    using decode_all_eq[OF assms, of nq sols h] by blast
  have same: "rs ! i = rs ! j" if ij: "i < length sols" "j < length sols" "sols ! i = sols ! j" for i j
  proof -
    obtain b c where i: "generateBoard bs (sols ! i) = Some (b, c)" "rs ! i = (b, c, real c / real nq)"
      using r(4) ij(1) by blast
    obtain b' c' where j: "generateBoard bs (sols ! j) = Some (b', c')" "rs ! j = (b', c', real c' / real nq)"
      using r(4) ij(2) by blast
    show ?thesis using i j ij(3) by simp
  qed
  have fit: "\<exists>b c. generateBoard bs (sols ! i) = Some (b, c) \<and>
               rs ! i = (b, c, real c / real nq) \<and>
               fitness bs nq (sols ! i) = Some (real c / real nq)" if ii: "i < length sols" for i
  proof -
    obtain b c where i: "generateBoard bs (sols ! i) = Some (b, c)" "rs ! i = (b, c, real c / real nq)"
      using r(4) ii by blast
    have "fitness bs nq (sols ! i) = Some (real c / real nq)" by (simp add: fitness_def i(1))
    then show ?thesis using i by blast
  qed
  show ?thesis
    using r(1,2,3) same fit by blast
qed

theorem decode_deterministic_witness:
  "(4::nat) < 2 ^ 32 \<and>
   (\<exists>rs h'. decode_all 4 4 [[1, 0, 0, 0], [0, 0, 0, 0], [1, 0, 0, 0]] [NewBoard 2] = Some (rs, h') \<and>
      length rs = 3 \<and> take 1 h' = [NewBoard 2] \<and> rs ! 0 = rs ! 2 \<and>
      rs ! 2 = (\<lparr>width = 4, data =
        [COVERED, QUEEN, COVERED, COVERED,
         COVERED, COVERED, COVERED, QUEEN,
         QUEEN, COVERED, COVERED, COVERED,
         COVERED, COVERED, QUEEN, COVERED]\<rparr>, 4, 1))"
proof -
  have h: "(4::nat) < 2 ^ 32" by simp
  obtain rs h' where r:
      "decode_all 4 4 [[1, 0, 0, 0], [0, 0, 0, 0], [1, 0, 0, 0]] [NewBoard 2] = Some (rs, h')"
      "length rs = length [[1, 0, 0, 0], [0, 0, 0, 0], [1, 0, 0, 0 :: nat]]"
      "take (length [NewBoard 2]) h' = [NewBoard 2]"
      "\<forall>i<length [[1, 0, 0, 0], [0, 0, 0, 0], [1, 0, 0, 0 :: nat]].
         \<forall>j<length [[1, 0, 0, 0], [0, 0, 0, 0], [1, 0, 0, 0 :: nat]].
           [[1, 0, 0, 0], [0, 0, 0, 0], [1, 0, 0, 0 :: nat]] ! i =
           [[1, 0, 0, 0], [0, 0, 0, 0], [1, 0, 0, 0]] ! j \<longrightarrow> rs ! i = rs ! j"
      "\<forall>i<length [[1, 0, 0, 0], [0, 0, 0, 0], [1, 0, 0, 0 :: nat]].
         \<exists>b c. generateBoard 4 ([[1, 0, 0, 0], [0, 0, 0, 0], [1, 0, 0, 0]] ! i) = Some (b, c) \<and>
               rs ! i = (b, c, real c / real 4) \<and>
               fitness 4 4 ([[1, 0, 0, 0], [0, 0, 0, 0], [1, 0, 0, 0]] ! i) = Some (real c / real 4)"
    using decode_deterministic[OF h, of 4 "[[1, 0, 0, 0], [0, 0, 0, 0], [1, 0, 0, 0]]" "[NewBoard 2]"]
    by blast
  have l0: "0 < length [[1, 0, 0, 0], [0, 0, 0, 0], [1, 0, 0, 0 :: nat]]"
    and l2: "2 < length [[1, 0, 0, 0], [0, 0, 0, 0], [1, 0, 0, 0 :: nat]]"
    and n2: "[[1, 0, 0, 0], [0, 0, 0, 0], [1, 0, 0, 0 :: nat]] ! 2 = [1, 0, 0, 0]"
    and n02: "[[1, 0, 0, 0], [0, 0, 0, 0], [1, 0, 0, 0 :: nat]] ! 0 =
              [[1, 0, 0, 0], [0, 0, 0, 0], [1, 0, 0, 0]] ! 2"
    by simp_all
  have e: "rs ! 0 = rs ! 2" using r(4)[rule_format, OF l0 l2 n02] .
  obtain b c where bc:
      "generateBoard 4 ([[1, 0, 0, 0], [0, 0, 0, 0], [1, 0, 0, 0]] ! 2) = Some (b, c)"
      "rs ! 2 = (b, c, real c / real 4)"
    using r(5)[rule_format, OF l2] by blast
  have "Some (b, c) = Some (\<lparr>width = 4, data =
        [COVERED, QUEEN, COVERED, COVERED,
         COVERED, COVERED, COVERED, QUEEN,
         QUEEN, COVERED, COVERED, COVERED,
         COVERED, COVERED, QUEEN, COVERED]\<rparr>, 4)"
    using bc(1) unfolding n2 decode_1000 by (rule sym)
  then have v: "rs ! 2 = (\<lparr>width = 4, data =
        [COVERED, QUEEN, COVERED, COVERED,
         COVERED, COVERED, COVERED, QUEEN,
         QUEEN, COVERED, COVERED, COVERED,
         COVERED, COVERED, QUEEN, COVERED]\<rparr>, 4, 1)"
    using bc(2) by simp
  show ?thesis
    using h r(1,2,3) e v by simp
qed

subsection \<open>Crossover\<close>

lemma copy_genes_eq:
  "hi \<le> length src \<Longrightarrow> hi \<le> length c \<Longrightarrow> i \<le> hi \<Longrightarrow>
     copy_genes src hi i c = Some (take i c @ take (hi - i) (drop i src) @ drop hi c)"
proof (induction "hi - i" arbitrary: i c)
  case 0
  then show ?case by (subst copy_genes.simps) simp
next
  case (Suc k)
  then have lt: "i < hi" by simp
  have k: "k = hi - (i + 1)" using Suc.hyps(2) by simp
  have ih: "copy_genes src hi (i + 1) (c[i := src ! i]) =
      Some (take (i + 1) (c[i := src ! i]) @ take (hi - (i + 1)) (drop (i + 1) src) @
            drop hi (c[i := src ! i]))"
    using Suc.prems lt by (intro Suc.hyps(1)[OF k]) simp_all
  have t1: "take (i + 1) (c[i := src ! i]) = take i c @ [src ! i]"
    using lt Suc.prems(2) by (simp add: take_Suc_conv_app_nth)
  have t2: "take (hi - i) (drop i src) = src ! i # take (hi - (i + 1)) (drop (i + 1) src)"
  proof -
    have "drop i src = src ! i # drop (Suc i) src"
      using lt Suc.prems(1) by (simp add: Cons_nth_drop_Suc)
    moreover have "hi - i = Suc (hi - (i + 1))" using lt by simp
    ultimately show ?thesis by simp
  qed
  have t3: "drop hi (c[i := src ! i]) = drop hi c" using lt by simp
  have st: "copy_genes src hi i c = copy_genes src hi (i + 1) (c[i := src ! i])"
    using lt Suc.prems by (subst copy_genes.simps) (simp add: load_def store_def)
  show ?case unfolding st ih t1 t2 t3 by simp
qed

lemma crossover_eq:
  assumes "length a = q" "length b = q" "p \<le> q"
  shows "crossover a b p q = Some (take p a @ drop p b)"
proof -
  have c1: "copy_genes a p 0 (NewSolution q) = Some (take p a @ drop p (NewSolution q))"
    using assms copy_genes_eq[of p a "NewSolution q" 0] by (simp add: NewSolution_def)
  have c2: "copy_genes b q p (take p a @ drop p (NewSolution q)) = Some (take p a @ drop p b)"
    using assms copy_genes_eq[of q b "take p a @ drop p (NewSolution q)" p]
    by (simp add: NewSolution_def)
  show ?thesis unfolding crossover_def c1 using c2 by simp
qed

lemma copy_genes_h_eq:
  "src < length h \<Longrightarrow> c < length h \<Longrightarrow> src \<noteq> c \<Longrightarrow>
     copy_genes_h src hi i c h =
       (case copy_genes (h ! src) hi i (h ! c) of
          None \<Rightarrow> None
        | Some cs \<Rightarrow> Some (h[c := cs]))"
proof (induction "hi - i" arbitrary: i h)
  case 0
  then show ?case
    by (subst copy_genes_h.simps, subst copy_genes.simps) simp
next
  case (Suc k)
  then have lt: "i < hi" by simp
  have k: "k = hi - (i + 1)" using Suc.hyps(2) by simp
  have ls: "load h src = Some (h ! src)" and lc: "load h c = Some (h ! c)"
    using Suc.prems by (simp_all add: load_def)
  show ?case
  proof (cases "load (h ! src) i")
    case None
    then show ?thesis
      using lt ls by (subst copy_genes_h.simps, subst copy_genes.simps) simp
  next
    case v: (Some v)
    show ?thesis
    proof (cases "store (h ! c) i v")
      case None
      then show ?thesis
        using lt ls lc v by (subst copy_genes_h.simps, subst copy_genes.simps) simp
    next
      case cs: (Some cs')
      have ih: "copy_genes_h src hi (i + 1) c (h[c := cs']) =
          (case copy_genes (h[c := cs'] ! src) hi (i + 1) (h[c := cs'] ! c) of
             None \<Rightarrow> None
           | Some cs \<Rightarrow> Some (h[c := cs', c := cs]))"
        using Suc.prems by (intro Suc.hyps(1)[OF k]) simp_all
      have n: "h[c := cs'] ! src = h ! src" "h[c := cs'] ! c = cs'"
        using Suc.prems by simp_all
      have l: "copy_genes_h src hi i c h = copy_genes_h src hi (i + 1) c (h[c := cs'])"
        using lt ls lc v cs by (subst copy_genes_h.simps) simp
      have r: "copy_genes (h ! src) hi i (h ! c) = copy_genes (h ! src) hi (i + 1) cs'"
        using lt v cs by (subst copy_genes.simps) simp
      show ?thesis unfolding l r ih n by (simp split: option.splits)
    qed
  qed
qed

lemma crossover_h_eq:
  assumes "a < length h" "b < length h"
  shows "crossover_h a b p q h =
     (case crossover (h ! a) (h ! b) p q of
        None \<Rightarrow> None
      | Some c \<Rightarrow> Some (length h, h @ [c]))"
proof -
  let ?h1 = "h @ [NewSolution q]"
  have a1: "a < length ?h1" "length h < length ?h1" "a \<noteq> length h"
    and b1: "b < length ?h1" "b \<noteq> length h"
    using assms by simp_all
  have na: "?h1 ! a = h ! a" and nb: "?h1 ! b = h ! b" and nc: "?h1 ! length h = NewSolution q"
    using assms by (simp_all add: nth_append)
  have s1: "copy_genes_h a p 0 (length h) ?h1 =
      (case copy_genes (h ! a) p 0 (NewSolution q) of
         None \<Rightarrow> None
       | Some cs \<Rightarrow> Some (h @ [cs]))"
    unfolding copy_genes_h_eq[OF a1] na nc by (simp split: option.splits)
  have s2: "copy_genes_h b q p (length h) (h @ [cs]) =
      (case copy_genes (h ! b) q p cs of
         None \<Rightarrow> None
       | Some cs' \<Rightarrow> Some (h @ [cs']))" for cs
  proof -
    have "b < length (h @ [cs])" "length h < length (h @ [cs])" "b \<noteq> length h"
      using assms by simp_all
    from copy_genes_h_eq[OF this] show ?thesis
      using assms by (simp add: nth_append split: option.splits)
  qed
  show ?thesis
    unfolding crossover_h_def NewSolution_h_def crossover_def
    by (simp add: s1 s2 split: option.splits)
qed

text \<open>
  Claim C9. For genomes \<open>a\<close> and \<open>b\<close> of length \<open>q\<close> and a cut point \<open>p \<le> q\<close>, \<^verbatim>\<open>crossover\<close>
  returns, without an index out of range, a genome of length \<open>q\<close> whose genes below \<open>p\<close> are
  those of \<open>a\<close> and whose genes from \<open>p\<close> on are those of \<open>b\<close>. On every heap that holds the
  two parents, at different addresses or at the same one, the child is a new slice at the
  end of the heap and every slice that was there, the parents among them, is unchanged.
\<close>

theorem crossover_single_point:
  assumes "length a = q" "length b = q" "p \<le> q"
  shows "\<exists>c. crossover a b p q = Some c \<and> length c = q \<and>
           (\<forall>i<p. c ! i = a ! i) \<and> (\<forall>i. p \<le> i \<and> i < q \<longrightarrow> c ! i = b ! i) \<and>
           (\<forall>h ia ib. ia < length h \<and> ib < length h \<and> h ! ia = a \<and> h ! ib = b \<longrightarrow>
              crossover_h ia ib p q h = Some (length h, h @ [c]))"
proof -
  have l: "length (take p a @ drop p b) = q" using assms by simp
  have f: "\<forall>i<p. (take p a @ drop p b) ! i = a ! i"
    using assms by (simp add: nth_append)
  have g: "\<forall>i. p \<le> i \<and> i < q \<longrightarrow> (take p a @ drop p b) ! i = b ! i"
    using assms by (auto simp: nth_append)
  have hp: "\<forall>h ia ib. ia < length h \<and> ib < length h \<and> h ! ia = a \<and> h ! ib = b \<longrightarrow>
              crossover_h ia ib p q h = Some (length h, h @ [take p a @ drop p b])"
    by (simp add: crossover_h_eq crossover_eq[OF assms])
  show ?thesis
    using crossover_eq[OF assms] l f g hp by blast
qed

theorem crossover_single_point_witness:
  "length [2, 3, 4, 5 :: nat] = 4 \<and> length [6, 7, 8, 9 :: nat] = 4 \<and> (2::nat) \<le> 4 \<and>
   crossover [2, 3, 4, 5] [6, 7, 8, 9] 2 4 = Some [2, 3, 8, 9] \<and>
   crossover_h 1 0 2 4 [[6, 7, 8, 9], [2, 3, 4, 5]] =
     Some (2, [[6, 7, 8, 9], [2, 3, 4, 5], [2, 3, 8, 9]])"
proof -
  have h: "length [2, 3, 4, 5 :: nat] = 4" "length [6, 7, 8, 9 :: nat] = 4" "(2::nat) \<le> 4"
    by simp_all
  obtain c where c: "crossover [2, 3, 4, 5] [6, 7, 8, 9] 2 4 = Some c"
      "\<forall>h ia ib. ia < length h \<and> ib < length h \<and> h ! ia = [2, 3, 4, 5] \<and> h ! ib = [6, 7, 8, 9] \<longrightarrow>
              crossover_h ia ib 2 4 h = Some (length h, h @ [c])"
    using crossover_single_point[OF h] by blast
  have e: "crossover [2, 3, 4, 5] [6, 7, 8, 9] 2 4 = Some [2, 3, 8, 9]"
    unfolding crossover_eq[OF h] by simp
  then have ce: "c = [2, 3, 8, 9]" using c(1) by simp
  have "crossover_h 1 0 2 4 [[6, 7, 8, 9], [2, 3, 4, 5]] =
     Some (length [[6, 7, 8, 9], [2, 3, 4, 5 :: nat]], [[6, 7, 8, 9], [2, 3, 4, 5]] @ [c])"
    by (rule c(2)[rule_format]) simp
  then have x: "crossover_h 1 0 2 4 [[6, 7, 8, 9], [2, 3, 4, 5]] =
     Some (2, [[6, 7, 8, 9], [2, 3, 4, 5], [2, 3, 8, 9]])"
    unfolding ce by simp
  show ?thesis using h e x by (intro conjI)
qed

subsection \<open>The selection scan\<close>

lemma scan_to_0:
  "scan_to fit previndex 0 =
     \<lparr>bestfitness = 0, nextbestfitness = 0, nextbestfitnessindex = 0, bestfitnessindex = previndex\<rparr>"
  by (simp add: scan_to_def)

lemma scan_to_Suc: "scan_to fit previndex (Suc k) = select_step fit k (scan_to fit previndex k)"
  by (simp add: scan_to_def)

lemma select_best_scan: "select_best fit previndex = scan_to fit previndex (length fit)"
  by (simp add: select_best_def scan_to_def)

lemma scan_only_first:
  assumes "0 \<le> fit ! 0" "\<forall>i. 0 < i \<and> i < length fit \<longrightarrow> fit ! i < fit ! 0"
  shows "k < length fit \<Longrightarrow> scan_to fit previndex (Suc k) =
     \<lparr>bestfitness = fit ! 0, nextbestfitness = 0, nextbestfitnessindex = previndex,
      bestfitnessindex = 0\<rparr>"
proof (induction k)
  case 0
  then show ?case using assms(1) by (simp add: scan_to_Suc scan_to_0 select_step_def)
next
  case (Suc k)
  then have "fit ! Suc k < fit ! 0" using assms(2) by simp
  then show ?case
    using Suc by (simp add: scan_to_Suc[of fit previndex "Suc k"] select_step_def)
qed

lemma scan_inv:
  assumes mx: "\<forall>j<length fit. fit ! j \<le> m" and m0: "0 \<le> m"
  shows "k \<le> length fit \<Longrightarrow>
     bestfitness (scan_to fit previndex k) \<le> m \<and>
     ((\<exists>i<k. fit ! i = m) \<longrightarrow>
        bestfitness (scan_to fit previndex k) = m \<and>
        bestfitnessindex (scan_to fit previndex k) < k \<and>
        fit ! bestfitnessindex (scan_to fit previndex k) = m \<and>
        (\<forall>j. bestfitnessindex (scan_to fit previndex k) < j \<and> j < k \<longrightarrow> fit ! j < m)) \<and>
     ((\<exists>i i'. i < i' \<and> i' < k \<and> fit ! i = m \<and> fit ! i' = m) \<longrightarrow>
        nextbestfitness (scan_to fit previndex k) = m \<and>
        nextbestfitnessindex (scan_to fit previndex k) < bestfitnessindex (scan_to fit previndex k) \<and>
        fit ! nextbestfitnessindex (scan_to fit previndex k) = m \<and>
        (\<forall>j. nextbestfitnessindex (scan_to fit previndex k) < j \<and>
              j < bestfitnessindex (scan_to fit previndex k) \<longrightarrow> fit ! j < m))"
proof (induction k)
  case 0
  then show ?case using m0 by (simp add: scan_to_0)
next
  case (Suc k)
  define s where "s = scan_to fit previndex k"
  have k: "k < length fit" using Suc.prems by simp
  have x: "fit ! k \<le> m" using mx k by simp
  have a1: "bestfitness s \<le> m"
    and a2: "(\<exists>i<k. fit ! i = m) \<Longrightarrow>
        bestfitness s = m \<and> bestfitnessindex s < k \<and> fit ! bestfitnessindex s = m \<and>
        (\<forall>j. bestfitnessindex s < j \<and> j < k \<longrightarrow> fit ! j < m)"
    and a3: "(\<exists>i i'. i < i' \<and> i' < k \<and> fit ! i = m \<and> fit ! i' = m) \<Longrightarrow>
        nextbestfitness s = m \<and> nextbestfitnessindex s < bestfitnessindex s \<and>
        fit ! nextbestfitnessindex s = m \<and>
        (\<forall>j. nextbestfitnessindex s < j \<and> j < bestfitnessindex s \<longrightarrow> fit ! j < m)"
    using Suc.IH k unfolding s_def by simp_all
  have less_Suc: "\<And>j. j < Suc k \<longleftrightarrow> j < k \<or> j = k" by auto
  show ?case
  proof (cases "fit ! k = m")
    case True
    have s': "scan_to fit previndex (Suc k) =
        \<lparr>bestfitness = m, nextbestfitness = bestfitness s,
         nextbestfitnessindex = bestfitnessindex s, bestfitnessindex = k\<rparr>"
      using True a1 by (simp add: scan_to_Suc s_def[symmetric] select_step_def)
    have two: "bestfitness s = m \<and> bestfitnessindex s < k \<and> fit ! bestfitnessindex s = m \<and>
        (\<forall>j. bestfitnessindex s < j \<and> j < k \<longrightarrow> fit ! j < m)"
      if "\<exists>i i'. i < i' \<and> i' < Suc k \<and> fit ! i = m \<and> fit ! i' = m"
    proof -
      from that obtain i i' where "i < i'" "i' < Suc k" "fit ! i = m" by blast
      then have "\<exists>i<k. fit ! i = m" by (intro exI[of _ i]) simp
      then show ?thesis by (rule a2)
    qed
    show ?thesis
      unfolding s' using True two by auto
  next
    case False
    then have lt: "fit ! k < m" using x by simp
    show ?thesis
    proof (cases "fit ! k \<ge> bestfitness s")
      case fires: True
      then have "bestfitness s < m" using lt by simp
      then have none: "\<not> (\<exists>i<k. fit ! i = m)" using a2 by auto
      then have none': "\<not> (\<exists>i<Suc k. fit ! i = m)" using False by (auto simp: less_Suc)
      then have none2: "\<not> (\<exists>i i'. i < i' \<and> i' < Suc k \<and> fit ! i = m \<and> fit ! i' = m)"
        by blast
      have s': "bestfitness (scan_to fit previndex (Suc k)) = fit ! k"
        using fires by (simp add: scan_to_Suc s_def[symmetric] select_step_def)
      have c1: "bestfitness (scan_to fit previndex (Suc k)) \<le> m" using s' x by simp
      show ?thesis
        using c1 none' none2 by blast
    next
      case stays: False
      have s': "scan_to fit previndex (Suc k) = s"
        using stays by (simp add: scan_to_Suc s_def[symmetric] select_step_def)
      have b2: "bestfitness s = m \<and> bestfitnessindex s < Suc k \<and> fit ! bestfitnessindex s = m \<and>
        (\<forall>j. bestfitnessindex s < j \<and> j < Suc k \<longrightarrow> fit ! j < m)"
        if "\<exists>i<Suc k. fit ! i = m"
      proof -
        from that False have "\<exists>i<k. fit ! i = m" by (auto simp: less_Suc)
        from a2[OF this] show ?thesis using lt by (auto simp: less_Suc)
      qed
      have b3: "nextbestfitness s = m \<and> nextbestfitnessindex s < bestfitnessindex s \<and>
        fit ! nextbestfitnessindex s = m \<and>
        (\<forall>j. nextbestfitnessindex s < j \<and> j < bestfitnessindex s \<longrightarrow> fit ! j < m)"
        if "\<exists>i i'. i < i' \<and> i' < Suc k \<and> fit ! i = m \<and> fit ! i' = m"
      proof -
        from that False have "\<exists>i i'. i < i' \<and> i' < k \<and> fit ! i = m \<and> fit ! i' = m"
          by (metis less_Suc)
        then show ?thesis by (rule a3)
      qed
      show ?thesis
        unfolding s' using a1 b2 b3 by blast
    qed
  qed
qed

lemma select_best_eval:
  "select_best [1 / 2, 1 / 4, 1 / 2] 0 =
     \<lparr>bestfitness = 1 / 2, nextbestfitness = 1 / 2, nextbestfitnessindex = 0, bestfitnessindex = 2\<rparr>"
  by (simp add: select_best_def select_step_def upt_rec)

lemma select_best_only_first:
  assumes "0 \<le> f0" "list_all (\<lambda>v. v < f0) rest"
  shows "select_best (f0 # rest) previndex =
     \<lparr>bestfitness = f0, nextbestfitness = 0, nextbestfitnessindex = previndex,
      bestfitnessindex = 0\<rparr>"
proof -
  have a: "0 \<le> (f0 # rest) ! 0" using assms(1) by simp
  have b: "\<forall>i. 0 < i \<and> i < length (f0 # rest) \<longrightarrow> (f0 # rest) ! i < (f0 # rest) ! 0"
  proof (intro allI impI)
    fix i assume i: "0 < i \<and> i < length (f0 # rest)"
    then obtain k where k: "i = Suc k" by (cases i) auto
    then have "k < length rest" using i by simp
    then have "rest ! k < f0" using assms(2) by (simp add: list_all_length)
    then show "(f0 # rest) ! i < (f0 # rest) ! 0" using k by simp
  qed
  have "scan_to (f0 # rest) previndex (Suc (length rest)) =
     \<lparr>bestfitness = (f0 # rest) ! 0, nextbestfitness = 0, nextbestfitnessindex = previndex,
      bestfitnessindex = 0\<rparr>"
    by (rule scan_only_first[OF a b]) simp
  then show ?thesis by (simp add: select_best_scan)
qed

text \<open>One generation on the population \<open>[2,2,2,2]\<close>, \<open>[15,15,15,15]\<close>, step by step.\<close>

lemma fit_eval:
  "fitness_loop 4 4 [[2, 2, 2, 2], [15, 15, 15, 15]] 0 (NewPopulationFitness 2) = Some [3 / 4, 1 / 4]"
proof -
  have f0: "fitness 4 4 [2, 2, 2, 2] = Some (3 / 4)"
    unfolding fitness_def decode_2222 by simp
  have f1: "fitness 4 4 [15, 15, 15, 15] = Some (1 / 4)"
    unfolding fitness_def decode_15 by simp
  show ?thesis
    by (simp add: f0 f1 store_def NewPopulationFitness_def replicate_numeral_Cons)
qed

lemma sel_eval:
  "select_best [3 / 4, 1 / 4] 0 =
     \<lparr>bestfitness = 3 / 4, nextbestfitness = 0, nextbestfitnessindex = 0, bestfitnessindex = 0\<rparr>"
  by (rule select_best_only_first) simp_all

lemma step0_eval:
  "operator_step \<lparr>rand_Intn = (\<lambda>n r. (7 mod n, r)), rand_Float64 = (\<lambda>r. (0, r))\<rparr> 4 4 2 (1 / 2)
     \<lparr>bestfitness = 3 / 4, nextbestfitness = 0, nextbestfitnessindex = 0, bestfitnessindex = 0\<rparr>
     [3 / 4, 1 / 4] 0 ([[2, 2, 2, 2], [15, 15, 15, 15]], ()) =
   Some ([[2, 2, 2, 2], [15, 15, 15, 15]], ())"
  by (simp add: operator_step_def replace_weak_def load_def)

lemma mutation_eval:
  "mutation_op \<lparr>rand_Intn = (\<lambda>n r. (7 mod n, r)), rand_Float64 = (\<lambda>r. (0, r))\<rparr> 4 4 2 (3 / 20)
     [[2, 2, 2, 2], [15, 15, 15, 15]] () =
   Some ([[2, 2, 2, 2], [15, 15, 15, 7]], ())"
  by (simp add: mutation_op_def mutate_def Intn_def umul_def load_def store_def list_update_numeral)

lemma crossover_eval:
  "crossover_op \<lparr>rand_Intn = (\<lambda>n r. (7 mod n, r)), rand_Float64 = (\<lambda>r. (0, r))\<rparr> 4 (7 / 100)
     \<lparr>bestfitness = 3 / 4, nextbestfitness = 0, nextbestfitnessindex = 0, bestfitnessindex = 0\<rparr>
     (Suc 0) [[2, 2, 2, 2], [15, 15, 15, 7]] () =
   Some ([[2, 2, 2, 2], [2, 2, 2, 2]], ())"
  by (simp add: crossover_op_def Intn_def load_def store_def crossover_eq)

lemma newpop_eval:
  "newpop_op \<lparr>rand_Intn = (\<lambda>n r. (7 mod n, r)), rand_Float64 = (\<lambda>r. (0, r))\<rparr> 4 (1 / 5)
     (Suc 0) [[2, 2, 2, 2], [2, 2, 2, 2]] () =
   Some ([[2, 2, 2, 2], [0, 0, 0, 0]], ())"
  by (simp add: newpop_op_def store_def NewSolution_def replicate_numeral_Cons)

lemma step1_eval:
  "operator_step \<lparr>rand_Intn = (\<lambda>n r. (7 mod n, r)), rand_Float64 = (\<lambda>r. (0, r))\<rparr> 4 4 2 (1 / 2)
     \<lparr>bestfitness = 3 / 4, nextbestfitness = 0, nextbestfitnessindex = 0, bestfitnessindex = 0\<rparr>
     [3 / 4, 1 / 4] (Suc 0) ([[2, 2, 2, 2], [15, 15, 15, 15]], ()) =
   Some ([[2, 2, 2, 2], [0, 0, 0, 0]], ())"
  by (simp add: operator_step_def replace_weak_def load_def mutation_eval crossover_eval
      newpop_eval)

text \<open>
  Claim C3, as the code has it. When two or more individuals attain the maximum of a
  fitness vector of non-negative values, the scan ends with \<^verbatim>\<open>bestfitnessindex\<close> at the
  last index that attains the maximum and with \<^verbatim>\<open>nextbestfitnessindex\<close> at the last index
  before it that attains the maximum: no index between the two attains it, and
  \<^verbatim>\<open>nextbestfitness\<close> is the maximum too. That index is the one before \<^verbatim>\<open>bestfitnessindex\<close>
  only when the two are neighbours: for the vector \<open>[1/2, 1/4, 1/2]\<close> the scan ends
  with the indices 2 and 0.
\<close>

theorem select_best_ties:
  assumes "fit ! i = Max (set fit)" "fit ! i' = Max (set fit)" "i < i'" "i' < length fit"
    "0 \<le> Max (set fit)"
  shows "bestfitness (select_best fit previndex) = Max (set fit) \<and>
         bestfitnessindex (select_best fit previndex) < length fit \<and>
         fit ! bestfitnessindex (select_best fit previndex) = Max (set fit) \<and>
         (\<forall>j. bestfitnessindex (select_best fit previndex) < j \<and> j < length fit
              \<longrightarrow> fit ! j < Max (set fit)) \<and>
         nextbestfitness (select_best fit previndex) = Max (set fit) \<and>
         nextbestfitnessindex (select_best fit previndex) < bestfitnessindex (select_best fit previndex) \<and>
         fit ! nextbestfitnessindex (select_best fit previndex) = Max (set fit) \<and>
         (\<forall>j. nextbestfitnessindex (select_best fit previndex) < j \<and>
              j < bestfitnessindex (select_best fit previndex) \<longrightarrow> fit ! j < Max (set fit))"
proof -
  have mx: "\<forall>j<length fit. fit ! j \<le> Max (set fit)" by simp
  have one: "\<exists>k<length fit. fit ! k = Max (set fit)" using assms(2,4) by blast
  have two: "\<exists>k k'. k < k' \<and> k' < length fit \<and> fit ! k = Max (set fit) \<and> fit ! k' = Max (set fit)"
    using assms(1-4) by blast
  show ?thesis
    unfolding select_best_scan
    using scan_inv[OF mx assms(5) le_refl, of previndex] one two by blast
qed

theorem select_best_ties_witness:
  "[1 / 2, 1 / 4, 1 / 2 :: real] ! 0 = Max (set [1 / 2, 1 / 4, 1 / 2]) \<and>
   [1 / 2, 1 / 4, 1 / 2 :: real] ! 2 = Max (set [1 / 2, 1 / 4, 1 / 2]) \<and>
   (0::nat) < 2 \<and> 2 < length [1 / 2, 1 / 4, 1 / 2 :: real] \<and>
   (0::real) \<le> Max (set [1 / 2, 1 / 4, 1 / 2]) \<and>
   bestfitness (select_best [1 / 2, 1 / 4, 1 / 2] 7) = Max (set [1 / 2, 1 / 4, 1 / 2]) \<and>
   nextbestfitness (select_best [1 / 2, 1 / 4, 1 / 2] 7) = Max (set [1 / 2, 1 / 4, 1 / 2]) \<and>
   nextbestfitnessindex (select_best [1 / 2, 1 / 4, 1 / 2] 7) <
     bestfitnessindex (select_best [1 / 2, 1 / 4, 1 / 2] 7) \<and>
   [1 / 2, 1 / 4, 1 / 2 :: real] ! nextbestfitnessindex (select_best [1 / 2, 1 / 4, 1 / 2] 7)
     = Max (set [1 / 2, 1 / 4, 1 / 2])"
proof -
  have h: "[1 / 2, 1 / 4, 1 / 2 :: real] ! 0 = Max (set [1 / 2, 1 / 4, 1 / 2])"
    "[1 / 2, 1 / 4, 1 / 2 :: real] ! 2 = Max (set [1 / 2, 1 / 4, 1 / 2])"
    "(0::nat) < 2" "2 < length [1 / 2, 1 / 4, 1 / 2 :: real]"
    "(0::real) \<le> Max (set [1 / 2, 1 / 4, 1 / 2])"
    by simp_all
  note t = select_best_ties[OF h, of 7]
  show ?thesis
    apply (insert h t)
    apply (elim conjE)
    apply (intro conjI)
            apply assumption+
    done
qed

theorem select_best_ties_counterexample:
  "[1 / 2, 1 / 4, 1 / 2 :: real] ! 0 = Max (set [1 / 2, 1 / 4, 1 / 2]) \<and>
   [1 / 2, 1 / 4, 1 / 2 :: real] ! 2 = Max (set [1 / 2, 1 / 4, 1 / 2]) \<and>
   bestfitnessindex (select_best [1 / 2, 1 / 4, 1 / 2] 0) = 2 \<and>
   nextbestfitnessindex (select_best [1 / 2, 1 / 4, 1 / 2] 0) = 0 \<and>
   nextbestfitnessindex (select_best [1 / 2, 1 / 4, 1 / 2] 0) \<noteq>
     bestfitnessindex (select_best [1 / 2, 1 / 4, 1 / 2] 0) - 1"
  unfolding select_best_eval by simp

subsection \<open>The selection of the next generation\<close>























subsection \<open>Replacement in the operator pass\<close>

text \<open>
  Claim C1. The operator pass replaces an individual by \<^verbatim>\<open>NewSolution(QUEENS)\<close>, the genome
  of \<open>q\<close> zeros, and draws nothing from the random source for it; \<^verbatim>\<open>NewRandomSolution\<close>, with
  which \<^verbatim>\<open>NewPopulation\<close> builds the genomes, is not called. One generation on a board of
  width 4 with the population \<open>[2,2,2,2]\<close>, \<open>[15,15,15,15]\<close> (fitness \<open>3/4\<close> and \<open>1/4\<close>) and a
  random source whose \<^verbatim>\<open>Float64\<close> is always 0 and whose \<^verbatim>\<open>Intn(n)\<close> is always \<open>7 mod n\<close>:
  individual 0 is skipped as one of the best; individual 1 is mutated to \<open>[15,15,15,7]\<close>,
  overwritten by the crossover \<open>[2,2,2,2]\<close> and then replaced, and ends as \<open>[0,0,0,0]\<close>, where
  \<^verbatim>\<open>NewRandomSolution\<close> on this source returns \<open>[7,7,7,7]\<close>. The replacement of a weak
  individual (here with average \<open>3/4\<close> and fitness \<open>1/4\<close>) writes the same zeros for every
  random source \<open>R\<close> in every state \<open>r\<close>.
\<close>

theorem generation_resets_to_zero_genome:
  "run_generation \<lparr>rand_Intn = (\<lambda>n r. (7 mod n, r)), rand_Float64 = (\<lambda>r. (0, r))\<rparr> 4 4 2
     ([[2, 2, 2, 2], [15, 15, 15, 15]], 0, ()) =
     Some (False, [[2, 2, 2, 2], [0, 0, 0, 0]], 0, ()) \<and>
   newpop_op \<lparr>rand_Intn = (\<lambda>n r. (7 mod n, r)), rand_Float64 = (\<lambda>r. (0, r))\<rparr> 4 (1 / 5) 1
       [[2, 2, 2, 2], [2, 2, 2, 2]] () =
     Some ([[2, 2, 2, 2], [0, 0, 0, 0]], ()) \<and>
   replace_weak R 4 (3 / 4) (1 / 4) 1 [[2, 2, 2, 2], [15, 15, 15, 15]] r =
     Some ([[2, 2, 2, 2], [0, 0, 0, 0]], r) \<and>
   NewRandomSolution \<lparr>rand_Intn = (\<lambda>n r. (7 mod n, r)), rand_Float64 = (\<lambda>r. (0, r))\<rparr> 4 16 () =
     Some ([7, 7, 7, 7], ())"
proof -
  have g: "run_generation \<lparr>rand_Intn = (\<lambda>n r. (7 mod n, r)), rand_Float64 = (\<lambda>r. (0, r))\<rparr> 4 4 2
     ([[2, 2, 2, 2], [15, 15, 15, 15]], 0, ()) =
     Some (False, [[2, 2, 2, 2], [0, 0, 0, 0]], 0, ())"
    by (simp only: run_generation_def prod.case fit_eval,
        simp add: sel_eval sum_scores_def operator_pass_def upt_rec step0_eval step1_eval)
  have a: "replace_weak R 4 (3 / 4) (1 / 4) 1 [[2, 2, 2, 2], [15, 15, 15, 15]] r =
     Some ([[2, 2, 2, 2], [0, 0, 0, 0]], r)"
    by (simp add: replace_weak_def store_def NewSolution_def replicate_numeral_Cons)
  have b: "newpop_op \<lparr>rand_Intn = (\<lambda>n r. (7 mod n, r)), rand_Float64 = (\<lambda>r. (0, r))\<rparr> 4 (1 / 5) 1
       [[2, 2, 2, 2], [2, 2, 2, 2]] () =
     Some ([[2, 2, 2, 2], [0, 0, 0, 0]], ())"
    using newpop_eval by simp
  have c: "NewRandomSolution \<lparr>rand_Intn = (\<lambda>n r. (7 mod n, r)), rand_Float64 = (\<lambda>r. (0, r))\<rparr> 4 16 () =
     Some ([7, 7, 7, 7], ())"
    by (simp add: NewRandomSolution_def NewRandomSolution_loop.simps Intn_def store_def
        NewSolution_def replicate_numeral_Cons list_update_numeral)
  show ?thesis using g a b c by (intro conjI)
qed

end
